theory Spec2Isabelle
  imports Complex_Main "HOL-Library.Word"
begin

section \<open>Embedding of \<open>src/random.cpp\<close>\<close>

text \<open>
  The file implements the randomness subsystem: the timing seed feed (\<open>RandAddSeed\<close>,
  \<open>RandAddSeedPerfmon\<close>), the operating-system entropy read (\<open>GetOSRand\<close>), the
  facade over OpenSSL's generator (\<open>GetRandBytes\<close>), the hashed two-source generator
  (\<open>GetStrongRandBytes\<close>), the bounded uniform integer (\<open>GetRand\<close>, \<open>GetRandInt\<close>)
  and the constructor of \<open>FastRandomContext\<close>. \<open>GetRandHash\<close>, one call of
  \<open>GetRandBytes\<close> on a \<open>uint256\<close> (a type that is not among the sources), is left
  out: no property below is about it.

  Every function of the file talks to the outside: OpenSSL, the kernel, the clock, the
  Windows registry. The embedding makes that explicit. A \<open>world\<close> holds, for each
  external call that returns something, the stream of its future replies (the head of the
  stream is the next reply, a call removes it), the two function-local \<open>static\<close>
  variables, the bytes that an uninitialised local happens to hold, and a trace of the
  external calls made so far. The field \<open>WIN32\<close> says whether the build defines the
  macro of that name: both branches of each \<open>#ifdef WIN32\<close> are embedded. \<open>abort()\<close>
  and a failed \<open>assert\<close> end the run: they are the left summand of the result.

  Counts, sizes and return codes that cannot overflow here (\<open>num\<close>, \<open>have\<close>, \<open>n\<close>,
  \<open>ret\<close>, the sizes of \<open>vData\<close>) are \<open>int\<close> and \<open>nat\<close>; the integers whose width
  matters (\<open>nMax\<close>, \<open>nRange\<close>, \<open>nRand\<close>, \<open>tmp\<close>, the lanes, the \<open>int\<close> of
  \<open>GetRandInt\<close>) are words.
\<close>

subsection \<open>Bytes, buffers and integers\<close>

type_synonym u8 = "8 word"
type_synonym u32 = "32 word"
type_synonym u64 = "64 word"

text \<open>
  A buffer (an array, or the object a \<open>uint8_t *\<close> points to) is the list of its bytes.
  \<open>store buf off bs\<close> overwrites \<open>buf\<close> from offset \<open>off\<close> with the bytes \<open>bs\<close>.
\<close>

definition store :: "u8 list \<Rightarrow> nat \<Rightarrow> u8 list \<Rightarrow> u8 list" where
  "store buf off bs = take off buf @ bs @ drop (off + length bs) buf"

text \<open>
  The object representation of an integer, least significant byte first (the casts
  \<open>(uint8_t *)&nRand\<close> and \<open>(uint8_t *)&tmp\<close> of the source read and write it).
\<close>

definition le_bytes :: "nat \<Rightarrow> 'a::len word \<Rightarrow> u8 list" where
  "le_bytes n x = map (\<lambda>i. ucast (drop_bit (8 * i) x)) [0..<n]"

fun le_word :: "u8 list \<Rightarrow> 'a::len word" where
  "le_word [] = 0"
| "le_word (b # bs) = ucast b + 256 * le_word bs"

subsection \<open>The outside world\<close>

datatype event =
    Call_gettimeofday
  | Call_QueryPerformanceCounter
  | Call_RAND_add "u8 list" rat
  | Call_RAND_bytes int
  | Call_open string
  | Call_read int nat
  | Call_close int
  | Call_GetTime
  | Call_RegQueryValueExA nat
  | Call_RegCloseKey
  | Call_CryptAcquireContextW
  | Call_CryptGenRandom nat
  | Call_CryptReleaseContext
  | Call_LogPrintf string "int list"
  | Call_LogPrint string string "int list"

record world =
  WIN32 :: bool
  gettimeofday_src :: "nat \<Rightarrow> int \<times> int"
  QueryPerformanceCounter_src :: "nat \<Rightarrow> u64"
  RAND_bytes_src :: "nat \<Rightarrow> int \<times> (nat \<Rightarrow> u8)"
  open_src :: "nat \<Rightarrow> int"
  read_src :: "nat \<Rightarrow> int \<times> (nat \<Rightarrow> u8)"
  GetTime_src :: "nat \<Rightarrow> int"
  RegQueryValueExA_src :: "nat \<Rightarrow> int \<times> nat \<times> (nat \<Rightarrow> u8)"
  CryptAcquireContextW_src :: "nat \<Rightarrow> int"
  CryptGenRandom_src :: "nat \<Rightarrow> int \<times> (nat \<Rightarrow> u8)"
  uninitialised :: "nat \<Rightarrow> u8"
  nLastPerfmon :: int
  warned :: bool
  trace :: "event list"

text \<open>How a run of a function ends without returning.\<close>

datatype stop = abort | assert_failed | out_of_bounds

type_synonym 'a outcome = "(stop \<times> world) + ('a \<times> world)"

definition log_event :: "event \<Rightarrow> world \<Rightarrow> world" where
  "log_event e w = w\<lparr>trace := trace w @ [e]\<rparr>"

text \<open>
  \<open>LogPrintf\<close> and \<open>LogPrint\<close> (\<open>util.h\<close>) only leave a line in the log: the trace
  keeps the format string and the numeric arguments.
\<close>

definition LogPrintf :: "string \<Rightarrow> int list \<Rightarrow> world \<Rightarrow> world" where
  "LogPrintf fmt args w = log_event (Call_LogPrintf fmt args) w"

definition LogPrint :: "string \<Rightarrow> string \<Rightarrow> int list \<Rightarrow> world \<Rightarrow> world" where
  "LogPrint category fmt args w = log_event (Call_LogPrint category fmt args) w"

subsection \<open>\<open>RandFailure\<close>\<close>

definition RandFailure_msg :: string where
  "RandFailure_msg = ''Failed to read randomness, aborting'' @ [CHR 0x0A]"

definition RandFailure :: "world \<Rightarrow> 'a outcome" where
  "RandFailure w = Inl (abort, LogPrintf RandFailure_msg [] w)"

subsection \<open>\<open>GetPerformanceCounter\<close> and \<open>RandAddSeed\<close>\<close>

definition gettimeofday :: "world \<Rightarrow> (int \<times> int) \<times> world" where
  "gettimeofday w =
     (gettimeofday_src w 0,
      log_event Call_gettimeofday (w\<lparr>gettimeofday_src := (\<lambda>k. gettimeofday_src w (Suc k))\<rparr>))"

definition QueryPerformanceCounter :: "world \<Rightarrow> u64 \<times> world" where
  "QueryPerformanceCounter w =
     (QueryPerformanceCounter_src w 0,
      log_event Call_QueryPerformanceCounter
        (w\<lparr>QueryPerformanceCounter_src := (\<lambda>k. QueryPerformanceCounter_src w (Suc k))\<rparr>))"

text \<open>
  \<open>nCounter\<close> is an \<open>int64_t\<close>; only its eight bytes are used, so it is a 64-bit word.
  Without \<open>WIN32\<close> it is \<open>tv_sec * 1000000 + tv_usec\<close> of the time of day.
\<close>

definition GetPerformanceCounter :: "world \<Rightarrow> u64 \<times> world" where
  "GetPerformanceCounter w =
     (if WIN32 w then QueryPerformanceCounter w
      else case gettimeofday w of
             ((tv_sec, tv_usec), w1) \<Rightarrow> (word_of_int (tv_sec * 1000000 + tv_usec), w1))"

text \<open>
  OpenSSL's \<open>RAND_add(buf, num, entropy)\<close> returns nothing: the trace records the bytes
  fed to the pool and the entropy estimate (the \<open>double\<close> 1.5 is the rational 3/2).
\<close>

definition RAND_add :: "u8 list \<Rightarrow> nat \<Rightarrow> rat \<Rightarrow> world \<Rightarrow> world" where
  "RAND_add buf num entropy w = log_event (Call_RAND_add (take num buf) entropy) w"

text \<open>
  Modelled from the spec: \<open>memory_cleanse\<close> of \<open>support/cleanse.h\<close>, which is not among
  the sources. The spec describes it as the primitive that overwrites a buffer with zero
  and is not optimised away; here it overwrites the first \<open>len\<close> bytes of the buffer.
\<close>

definition memory_cleanse :: "u8 list \<Rightarrow> nat \<Rightarrow> u8 list" where
  "memory_cleanse ptr len = store ptr 0 (replicate len 0)"

text \<open>
  \<open>RandAddSeed\<close> returns nothing. The embedding returns the bytes that its local
  \<open>nCounter\<close> holds when the function returns, next to the new world.
\<close>

definition RandAddSeed :: "world \<Rightarrow> u8 list \<times> world" where
  "RandAddSeed w =
     (case GetPerformanceCounter w of
        (nCounter, w1) \<Rightarrow>
          let mem = le_bytes 8 nCounter;
              w2 = RAND_add mem 8 (3 / 2) w1;
              mem = memory_cleanse mem 8
          in (mem, w2))"

subsection \<open>\<open>RandAddSeedPerfmon\<close>\<close>

definition GetTime :: "world \<Rightarrow> int \<times> world" where
  "GetTime w =
     (GetTime_src w 0, log_event Call_GetTime (w\<lparr>GetTime_src := (\<lambda>k. GetTime_src w (Suc k))\<rparr>))"

text \<open>The two return codes of the Windows API that the source compares with.\<close>

definition ERROR_SUCCESS :: int where
  "ERROR_SUCCESS = 0"

definition ERROR_MORE_DATA :: int where
  "ERROR_MORE_DATA = 234"

text \<open>
  \<open>RegQueryValueExA(HKEY_PERFORMANCE_DATA, "Global", nullptr, nullptr, lpData, &cbData)\<close>:
  the reply is the return code, the size stored through the last argument and the data.
  The data are stored when the call succeeds, never beyond the end of the buffer.
\<close>

definition RegQueryValueExA :: "u8 list \<Rightarrow> nat \<Rightarrow> world \<Rightarrow> (int \<times> u8 list \<times> nat) \<times> world" where
  "RegQueryValueExA lpData cbData w =
     (case RegQueryValueExA_src w 0 of
        (ret, cbData', data) \<Rightarrow>
          ((ret,
            (if ret = ERROR_SUCCESS
             then take (length lpData) (store lpData 0 (map data [0..<cbData']))
             else lpData),
            cbData'),
           log_event (Call_RegQueryValueExA cbData)
             (w\<lparr>RegQueryValueExA_src := (\<lambda>k. RegQueryValueExA_src w (Suc k))\<rparr>)))"

definition RegCloseKey :: "world \<Rightarrow> world" where
  "RegCloseKey w = log_event Call_RegCloseKey w"

text \<open>\<open>std::vector::resize\<close>: truncate, or extend with zero bytes.\<close>

definition resize :: "u8 list \<Rightarrow> nat \<Rightarrow> u8 list" where
  "resize v n = take n v @ replicate (n - length v) 0"

definition nMaxSize :: nat where
  "nMaxSize = 10000000"

text \<open>
  The \<open>while (true)\<close> loop of the \<open>WIN32\<close> branch. It returns \<open>ret\<close>, \<open>nSize\<close> and
  \<open>vData\<close> as they are at the \<open>break\<close>.
\<close>

function RandAddSeedPerfmon_loop :: "u8 list \<Rightarrow> world \<Rightarrow> (int \<times> nat \<times> u8 list) \<times> world" where
  "RandAddSeedPerfmon_loop vData w =
     (let nSize = length vData in
      case RegQueryValueExA vData nSize w of
        ((ret, vData', nSize'), w1) \<Rightarrow>
          if ret \<noteq> ERROR_MORE_DATA \<or> length vData' \<ge> nMaxSize
          then ((ret, nSize', vData'), w1)
          else RandAddSeedPerfmon_loop
                 (resize vData' (max ((length vData' * 3) div 2) nMaxSize)) w1)"
  by pat_completeness auto
termination
  by (relation "measure (\<lambda>(vData, w). nMaxSize - length vData)")
     (auto simp: RegQueryValueExA_def resize_def ERROR_SUCCESS_def ERROR_MORE_DATA_def
           split: prod.splits if_splits)

declare RandAddSeedPerfmon_loop.simps [simp del]

definition perfmon_bytes_fmt :: string where
  "perfmon_bytes_fmt = ''%s: %lu bytes'' @ [CHR 0x0A]"

definition perfmon_warning_fmt :: string where
  "perfmon_warning_fmt =
     ''%s: Warning: RegQueryValueExA(HKEY_PERFORMANCE_DATA) failed with code %i'' @ [CHR 0x0A]"

text \<open>
  The function returns nothing; the embedding returns the new world. The quotient
  \<open>nSize / 100.0\<close> is the entropy estimate handed to \<open>RAND_add\<close>, kept as a rational.
\<close>

definition RandAddSeedPerfmon :: "world \<Rightarrow> world" where
  "RandAddSeedPerfmon w =
     (let w1 = snd (RandAddSeed w) in
      if \<not> WIN32 w1 then w1
      else
        case GetTime w1 of
          (t1, w2) \<Rightarrow>
            if t1 < nLastPerfmon w2 + 10 * 60 then w2
            else
              case GetTime w2 of
                (t2, w3) \<Rightarrow>
                  let w4 = w3\<lparr>nLastPerfmon := t2\<rparr>;
                      vData = replicate 250000 (0 :: u8)
                  in case RandAddSeedPerfmon_loop vData w4 of
                       ((ret, nSize, vData), w5) \<Rightarrow>
                         let w6 = RegCloseKey w5 in
                         if ret = ERROR_SUCCESS then
                           let w7 = RAND_add vData nSize (of_nat nSize / 100) w6;
                               vData = memory_cleanse vData nSize
                           in LogPrint ''rand'' perfmon_bytes_fmt [int nSize] w7
                         else if \<not> warned w6
                           then (LogPrintf perfmon_warning_fmt [ret] w6)\<lparr>warned := True\<rparr>
                           else w6)"

subsection \<open>\<open>GetOSRand\<close>\<close>

definition CryptAcquireContextW :: "world \<Rightarrow> int \<times> world" where
  "CryptAcquireContextW w =
     (CryptAcquireContextW_src w 0,
      log_event Call_CryptAcquireContextW
        (w\<lparr>CryptAcquireContextW_src := (\<lambda>k. CryptAcquireContextW_src w (Suc k))\<rparr>))"

definition CryptGenRandom :: "nat \<Rightarrow> u8 list \<Rightarrow> world \<Rightarrow> (int \<times> u8 list) \<times> world" where
  "CryptGenRandom dwLen pbBuffer w =
     (case CryptGenRandom_src w 0 of
        (ret, data) \<Rightarrow>
          ((ret, store pbBuffer 0 (map data [0..<dwLen])),
           log_event (Call_CryptGenRandom dwLen)
             (w\<lparr>CryptGenRandom_src := (\<lambda>k. CryptGenRandom_src w (Suc k))\<rparr>)))"

definition CryptReleaseContext :: "world \<Rightarrow> world" where
  "CryptReleaseContext w = log_event Call_CryptReleaseContext w"

text \<open>
  The system calls \<open>open\<close>, \<open>read\<close> and \<open>close\<close> (\<open>open\<close> is a constant of the
  library already, so the three carry the prefix \<open>sys_\<close>). The reply to \<open>read\<close> is its
  return value \<open>n\<close> and the data; when \<open>n\<close> is positive, \<open>n\<close> bytes are stored at the
  target (\<open>buf\<close> from offset \<open>off\<close>, the pointer \<open>ent32 + have\<close> of the source).
\<close>

definition sys_open :: "string \<Rightarrow> world \<Rightarrow> int \<times> world" where
  "sys_open path w =
     (open_src w 0, log_event (Call_open path) (w\<lparr>open_src := (\<lambda>k. open_src w (Suc k))\<rparr>))"

definition sys_read :: "int \<Rightarrow> u8 list \<Rightarrow> nat \<Rightarrow> nat \<Rightarrow> world \<Rightarrow> (int \<times> u8 list) \<times> world" where
  "sys_read f buf off count w =
     (case read_src w 0 of
        (n, data) \<Rightarrow>
          ((n, store buf off (map data [0..<nat n])),
           log_event (Call_read f count) (w\<lparr>read_src := (\<lambda>k. read_src w (Suc k))\<rparr>)))"

definition sys_close :: "int \<Rightarrow> world \<Rightarrow> world" where
  "sys_close f w = log_event (Call_close f) w"

text \<open>
  The \<open>do ... while (have < 32)\<close> loop. It returns the buffer and \<open>have\<close> as they are
  when the loop is left.
\<close>

function GetOSRand_loop :: "int \<Rightarrow> u8 list \<Rightarrow> int \<Rightarrow> world \<Rightarrow> (u8 list \<times> int) outcome" where
  "GetOSRand_loop f ent32 have w =
     (case sys_read f ent32 (nat have) (nat (32 - have)) w of
        ((n, ent32'), w1) \<Rightarrow>
          if n \<le> 0 \<or> n + have > 32 then RandFailure w1
          else
            let have' = have + n in
            if have' < 32 then GetOSRand_loop f ent32' have' w1
            else Inr ((ent32', have'), w1))"
  by pat_completeness auto
termination
  by (relation "measure (\<lambda>(f, ent32, have, w). nat (32 - have))") auto

declare GetOSRand_loop.simps [simp del]

definition GetOSRand :: "u8 list \<Rightarrow> world \<Rightarrow> (u8 list) outcome" where
  "GetOSRand ent32 w =
     (if WIN32 w then
        case CryptAcquireContextW w of
          (ret, w1) \<Rightarrow>
            if ret = 0 then RandFailure w1
            else
              case CryptGenRandom 32 ent32 w1 of
                ((ret, ent32'), w2) \<Rightarrow>
                  if ret = 0 then RandFailure w2
                  else Inr (ent32', CryptReleaseContext w2)
      else
        case sys_open ''/dev/urandom'' w of
          (f, w1) \<Rightarrow>
            if f = - 1 then RandFailure w1
            else
              let have = 0 in
              case GetOSRand_loop f ent32 have w1 of
                Inl e \<Rightarrow> Inl e
              | Inr ((ent32', have), w2) \<Rightarrow> Inr (ent32', sys_close f w2))"

subsection \<open>\<open>GetRandBytes\<close>\<close>

text \<open>
  OpenSSL's \<open>RAND_bytes(buf, num)\<close>: the next reply of the generator is its return value
  and the bytes it produces; the first \<open>num\<close> of them are written to \<open>buf\<close>.
\<close>

definition RAND_bytes :: "u8 list \<Rightarrow> int \<Rightarrow> world \<Rightarrow> (int \<times> u8 list) \<times> world" where
  "RAND_bytes buf num w =
     (case RAND_bytes_src w 0 of (ret, data) \<Rightarrow>
        ((ret, store buf 0 (map data [0..<nat num])),
         log_event (Call_RAND_bytes num) (w\<lparr>RAND_bytes_src := (\<lambda>k. RAND_bytes_src w (Suc k))\<rparr>)))"

definition GetRandBytes :: "u8 list \<Rightarrow> int \<Rightarrow> world \<Rightarrow> (u8 list) outcome" where
  "GetRandBytes buf num w =
     (case RAND_bytes buf num w of ((ret, buf'), w1) \<Rightarrow>
        if ret \<noteq> 1 then RandFailure w1 else Inr (buf', w1))"

subsection \<open>\<open>GetStrongRandBytes\<close>\<close>

text \<open>
  Modelled from the spec: the class \<open>CSHA512\<close> of \<open>crypto/sha512.h\<close>, which is not
  among the sources. The spec has the two 32-byte halves concatenated and one 512-bit
  hash computed over the concatenation: the hasher is the list of the bytes written to it
  so far, and \<open>Finalize\<close> stores the digest of that list. The hash function itself is a
  parameter, \<open>sha512\<close>.
\<close>

definition CSHA512_Write :: "u8 list \<Rightarrow> u8 list \<Rightarrow> nat \<Rightarrow> u8 list" where
  "CSHA512_Write hasher data len = hasher @ take len data"

definition CSHA512_Finalize :: "(u8 list \<Rightarrow> u8 list) \<Rightarrow> u8 list \<Rightarrow> u8 list \<Rightarrow> u8 list" where
  "CSHA512_Finalize sha512 hasher hash = store hash 0 (sha512 hasher)"

text \<open>
  \<open>memcpy(dst, src, n)\<close> with the \<open>int\<close> \<open>n\<close> converted to \<open>size_t\<close>: a negative \<open>n\<close>
  becomes a huge count, and a count beyond either buffer leaves the buffers. Both are
  \<open>None\<close> here.
\<close>

definition memcpy :: "u8 list \<Rightarrow> u8 list \<Rightarrow> int \<Rightarrow> u8 list option" where
  "memcpy dst src n =
     (if 0 \<le> n \<and> nat n \<le> length src \<and> nat n \<le> length dst
      then Some (store dst 0 (take (nat n) src))
      else None)"

text \<open>
  The function returns nothing. The embedding returns the buffer \<open>out\<close> points to and
  the bytes that the local \<open>buf\<close> holds when the function returns. \<open>buf\<close> is declared
  without an initialiser.
\<close>

definition GetStrongRandBytes ::
  "(u8 list \<Rightarrow> u8 list) \<Rightarrow> u8 list \<Rightarrow> int \<Rightarrow> world \<Rightarrow> (u8 list \<times> u8 list) outcome" where
  "GetStrongRandBytes sha512 out num w =
     (if \<not> num \<le> 32 then Inl (assert_failed, w)
      else
        let hasher = [];
            buf = map (uninitialised w) [0..<64];
            w1 = RandAddSeedPerfmon w
        in case GetRandBytes buf 32 w1 of
             Inl e \<Rightarrow> Inl e
           | Inr (buf, w2) \<Rightarrow>
               let hasher = CSHA512_Write hasher buf 32 in
               case GetOSRand buf w2 of
                 Inl e \<Rightarrow> Inl e
               | Inr (buf, w3) \<Rightarrow>
                   let hasher = CSHA512_Write hasher buf 32;
                       buf = CSHA512_Finalize sha512 hasher buf
                   in case memcpy out buf num of
                        None \<Rightarrow> Inl (out_of_bounds, w3)
                      | Some out' \<Rightarrow>
                          let buf = memory_cleanse buf 64
                          in Inr ((out', buf), w3))"

subsection \<open>\<open>GetRand\<close> and \<open>GetRandInt\<close>\<close>

text \<open>
  The three loops of the file that draw from the generator have one shape,
  \<^verbatim>\<open>do { GetRandBytes(buf, num); } while (again(buf));\<close>
  and differ in the buffer and the condition only. The loop may run forever (the
  generator may keep producing rejected values), so its result is an \<open>option\<close>:
  \<open>None\<close> is the run that never leaves the loop.
\<close>

partial_function (option) do_GetRandBytes_while ::
  "(u8 list \<Rightarrow> bool) \<Rightarrow> int \<Rightarrow> u8 list \<Rightarrow> world \<Rightarrow> (u8 list) outcome option" where
  "do_GetRandBytes_while again num buf w =
     (case GetRandBytes buf num w of
        Inl e \<Rightarrow> Some (Inl e)
      | Inr (buf', w1) \<Rightarrow>
          if again buf' then do_GetRandBytes_while again num buf' w1
          else Some (Inr (buf', w1)))"

definition UINT64_MAX :: u64 where
  "UINT64_MAX = - 1"

definition nRange_of :: "u64 \<Rightarrow> u64" where
  "nRange_of nMax = (UINT64_MAX div nMax) * nMax"

definition GetRand :: "u64 \<Rightarrow> world \<Rightarrow> u64 outcome option" where
  "GetRand nMax w =
     (if nMax = 0 then Some (Inr (0, w))
      else
        let nRange = nRange_of nMax;
            nRand = (0 :: u64)
        in case do_GetRandBytes_while (\<lambda>b. (le_word b :: u64) \<ge> nRange) 8 (le_bytes 8 nRand) w of
             None \<Rightarrow> None
           | Some (Inl e) \<Rightarrow> Some (Inl e)
           | Some (Inr (b, w1)) \<Rightarrow> Some (Inr ((le_word b :: u64) mod nMax, w1)))"


subsection \<open>\<open>FastRandomContext::FastRandomContext\<close>\<close>

record FastRandomContext =
  Rz :: u32
  Rw :: u32

text \<open>\<open>tmp\<close> is declared without an initialiser.\<close>

definition FastRandomContext_ctor :: "bool \<Rightarrow> world \<Rightarrow> FastRandomContext outcome option" where
  "FastRandomContext_ctor fDeterministic w =
     (if fDeterministic then Some (Inr (\<lparr>Rz = 11, Rw = 11\<rparr>, w))
      else
        let tmp = map (uninitialised w) [0..<4] in
        case do_GetRandBytes_while
               (\<lambda>tmp. (le_word tmp :: u32) = 0 \<or> (le_word tmp :: u32) = 0x9068ffff) 4 tmp w of
          None \<Rightarrow> None
        | Some (Inl e) \<Rightarrow> Some (Inl e)
        | Some (Inr (tmp, w1)) \<Rightarrow>
            let Rz' = (le_word tmp :: u32) in
            case do_GetRandBytes_while
                   (\<lambda>tmp. (le_word tmp :: u32) = 0 \<or> (le_word tmp :: u32) = 0x464fffff) 4 tmp w1 of
              None \<Rightarrow> None
            | Some (Inl e) \<Rightarrow> Some (Inl e)
            | Some (Inr (tmp, w2)) \<Rightarrow> Some (Inr (\<lparr>Rz = Rz', Rw = le_word tmp\<rparr>, w2)))"

section \<open>Notions used to state the properties\<close>

text \<open>
  \<open>draw num w k\<close> is the byte string that the \<open>k\<close>-th next call of \<open>RAND_bytes\<close> with
  length \<open>num\<close> produces in the world \<open>w\<close>; \<open>RAND_bytes_calls k num w\<close> is the world after
  \<open>k\<close> such calls.
\<close>

definition draw :: "int \<Rightarrow> world \<Rightarrow> nat \<Rightarrow> u8 list" where
  "draw num w k = map (snd (RAND_bytes_src w k)) [0..<nat num]"

definition RAND_bytes_calls :: "nat \<Rightarrow> int \<Rightarrow> world \<Rightarrow> world" where
  "RAND_bytes_calls k num w =
     w\<lparr>RAND_bytes_src := (\<lambda>j. RAND_bytes_src w (j + k)),
       trace := trace w @ replicate k (Call_RAND_bytes num)\<rparr>"

text \<open>
  \<open>redrawn again num buf w k\<close>: the \<open>k\<close>-th next call of the generator succeeds and the
  loop condition \<open>again\<close> holds of the buffer it fills, so the loop draws once more.
\<close>

definition redrawn :: "(u8 list \<Rightarrow> bool) \<Rightarrow> int \<Rightarrow> u8 list \<Rightarrow> world \<Rightarrow> nat \<Rightarrow> bool" where
  "redrawn again num buf w k \<longleftrightarrow>
     fst (RAND_bytes_src w k) = 1 \<and> again (store buf 0 (draw num w k))"

text \<open>
  \<open>leaves again num buf w r\<close>: some call of the generator is the first that is not
  redrawn, and \<open>r\<close> is what the loop yields there: the buffer when the call succeeded,
  the abort of \<open>RandFailure\<close> when it did not.
\<close>

definition leaves :: "(u8 list \<Rightarrow> bool) \<Rightarrow> int \<Rightarrow> u8 list \<Rightarrow> world \<Rightarrow> (u8 list) outcome \<Rightarrow> bool" where
  "leaves again num buf w r \<longleftrightarrow>
     (\<exists>k. (\<forall>j<k. redrawn again num buf w j) \<and>
          (if fst (RAND_bytes_src w k) = 1
           then \<not> again (store buf 0 (draw num w k)) \<and>
                r = Inr (store buf 0 (draw num w k), RAND_bytes_calls (Suc k) num w)
           else r = RandFailure (RAND_bytes_calls (Suc k) num w)))"

text \<open>The 32-bit value of the \<open>k\<close>-th next draw of four bytes.\<close>

definition draw32 :: "world \<Rightarrow> nat \<Rightarrow> u32" where
  "draw32 w k = le_word (draw 4 w k)"

text \<open>
  The member functions of \<open>FastRandomContext\<close> that produce output are defined in
  \<open>random.h\<close>, which is not among the sources. They read and write the two lanes
  only, so a call is a function from the state to an output and the next state, and a
  sequence of calls is a list of them. \<open>run_calls\<close> is the list of the outputs.
\<close>

fun run_calls :: "('s \<Rightarrow> 'o \<times> 's) list \<Rightarrow> 's \<Rightarrow> 'o list" where
  "run_calls [] s = []"
| "run_calls (f # fs) s = (case f s of (out, s') \<Rightarrow> out # run_calls fs s')"

text \<open>
  \<open>chunk w\<close> is the data the next call of \<open>read\<close> delivers (as many bytes as its
  return value says), \<open>after_read f count w\<close> the world after that call.
\<close>

definition chunk :: "world \<Rightarrow> u8 list" where
  "chunk w = map (snd (read_src w 0)) [0..<nat (fst (read_src w 0))]"

definition after_read :: "int \<Rightarrow> nat \<Rightarrow> world \<Rightarrow> world" where
  "after_read f count w =
     log_event (Call_read f count) (w\<lparr>read_src := (\<lambda>k. read_src w (Suc k))\<rparr>)"

text \<open>
  The next \<open>m\<close> calls of \<open>read\<close> taken together: \<open>got w m\<close> is the sum of their return
  values, \<open>chunks w m\<close> the bytes they deliver, in the order read, and
  \<open>reads_done f have m w\<close> the world after them, when the first of them is made with
  \<open>have\<close> bytes already there (each call asks for what is still missing of the 32).
\<close>

definition got :: "world \<Rightarrow> nat \<Rightarrow> int" where
  "got w m = (\<Sum>j<m. fst (read_src w j))"

definition chunks :: "world \<Rightarrow> nat \<Rightarrow> u8 list" where
  "chunks w m =
     concat (map (\<lambda>j. map (snd (read_src w j)) [0..<nat (fst (read_src w j))]) [0..<m])"

definition reads_done :: "int \<Rightarrow> int \<Rightarrow> nat \<Rightarrow> world \<Rightarrow> world" where
  "reads_done f have m w =
     w\<lparr>read_src := (\<lambda>k. read_src w (k + m)),
       trace := trace w @ map (\<lambda>j. Call_read f (nat (32 - (have + got w j)))) [0..<m]\<rparr>"

text \<open>The number of calls of \<open>read\<close> in the trace, and the world in which a run ends.\<close>

fun is_read :: "event \<Rightarrow> bool" where
  "is_read (Call_read f count) = True"
| "is_read e = False"

definition reads :: "world \<Rightarrow> nat" where
  "reads w = length (filter is_read (trace w))"

fun final_world :: "'a outcome \<Rightarrow> world" where
  "final_world (Inl (s, w)) = w"
| "final_world (Inr (x, w)) = w"

text \<open>The world after a call of \<open>RegQueryValueExA\<close> with a buffer of \<open>cbData\<close> bytes.\<close>

definition after_query :: "nat \<Rightarrow> world \<Rightarrow> world" where
  "after_query cbData w =
     log_event (Call_RegQueryValueExA cbData)
       (w\<lparr>RegQueryValueExA_src := (\<lambda>k. RegQueryValueExA_src w (Suc k))\<rparr>)"

text \<open>
  \<open>continues w w'\<close>: from \<open>w\<close> to \<open>w'\<close> nothing was drawn from the generator, the
  platform and the uninitialised memory are the same, and the trace has only grown.
\<close>

definition continues :: "world \<Rightarrow> world \<Rightarrow> bool" where
  "continues w w' \<longleftrightarrow>
     RAND_bytes_src w' = RAND_bytes_src w \<and> WIN32 w' = WIN32 w \<and>
     uninitialised w' = uninitialised w \<and> (\<exists>evs. trace w' = trace w @ evs)"

section \<open>Example worlds\<close>

text \<open>
  A world in which every external call succeeds: the generator's \<open>k\<close>-th reply is the
  bytes \<open>k, k + 1, ...\<close>, \<open>/dev/urandom\<close> opens as descriptor 3 and a read delivers all
  32 bytes at once.
\<close>

definition quiet_world :: world where
  "quiet_world =
     \<lparr>WIN32 = False,
      gettimeofday_src = (\<lambda>k. (1700000000 + int k, 250000)),
      QueryPerformanceCounter_src = (\<lambda>k. 0),
      RAND_bytes_src = (\<lambda>k. (1, (\<lambda>i. of_nat (k + i)))),
      open_src = (\<lambda>k. 3),
      read_src = (\<lambda>k. (32, (\<lambda>i. of_nat (2 * i)))),
      GetTime_src = (\<lambda>k. 1700000000),
      RegQueryValueExA_src = (\<lambda>k. (0, 0, (\<lambda>i. 0))),
      CryptAcquireContextW_src = (\<lambda>k. 1),
      CryptGenRandom_src = (\<lambda>k. (1, (\<lambda>i. of_nat i))),
      uninitialised = (\<lambda>i. 0xCC),
      nLastPerfmon = 0,
      warned = False,
      trace = []\<rparr>"

text \<open>The generator first produces eight bytes \<open>0xFF\<close>, then the value 7.\<close>

definition two_draws_world :: world where
  "two_draws_world =
     quiet_world\<lparr>RAND_bytes_src :=
       (\<lambda>k. (1, (\<lambda>i. if k = 0 then 255 else if i = 0 then 7 else 0)))\<rparr>"

text \<open>The generator's first call reports failure (returns 0).\<close>

definition failing_generator_world :: world where
  "failing_generator_world =
     quiet_world\<lparr>RAND_bytes_src := (\<lambda>k. (if k = 0 then 0 else 1, (\<lambda>i. of_nat i)))\<rparr>"

text \<open>The generator produces the 32-bit values 0, 5, \<open>0x464fffff\<close> and then 9.\<close>

definition seeding_world :: world where
  "seeding_world =
     quiet_world\<lparr>RAND_bytes_src :=
       (\<lambda>k. (1, (\<lambda>i. if k = 0 then 0
                      else if k = 1 then (if i = 0 then 5 else 0)
                      else if k = 2 then [0xFF, 0xFF, 0x4F, 0x46] ! i
                      else (if i = 0 then 9 else 0))))\<rparr>"


text \<open>\<open>read\<close> delivers 20 bytes, then the remaining 12.\<close>

definition partial_reads_world :: world where
  "partial_reads_world =
     quiet_world\<lparr>read_src := (\<lambda>k. (if k = 0 then 20 else 12, (\<lambda>i. of_nat (100 * k + i))))\<rparr>"

text \<open>\<open>read\<close> delivers 20 bytes, then returns 0.\<close>

definition end_of_file_world :: world where
  "end_of_file_world =
     quiet_world\<lparr>read_src := (\<lambda>k. (if k = 0 then 20 else 0, (\<lambda>i. of_nat i)))\<rparr>"

text \<open>\<open>open\<close> fails.\<close>

definition no_urandom_world :: world where
  "no_urandom_world = quiet_world\<lparr>open_src := (\<lambda>k. - 1)\<rparr>"

text \<open>The same on \<open>WIN32\<close>: the provider is acquired and delivers the bytes 0, 1, 2, ...\<close>

definition win32_world :: world where
  "win32_world = quiet_world\<lparr>WIN32 := True\<rparr>"

text \<open>On \<open>WIN32\<close>, \<open>CryptGenRandom\<close> fails (returns 0) and leaves zero bytes behind.\<close>

definition win32_no_random_world :: world where
  "win32_no_random_world =
     quiet_world\<lparr>WIN32 := True, CryptGenRandom_src := (\<lambda>k. (0, (\<lambda>i. 0)))\<rparr>"

text \<open>
  On \<open>WIN32\<close>, the registry first answers \<open>ERROR_MORE_DATA\<close> (234), then succeeds with
  four bytes.
\<close>

definition more_data_world :: world where
  "more_data_world =
     quiet_world\<lparr>WIN32 := True,
       RegQueryValueExA_src :=
         (\<lambda>k. if k = 0 then (234, 300000, (\<lambda>i. 0)) else (0, 4, (\<lambda>i. of_nat i)))\<rparr>"

text \<open>
  A stand-in for the hash function in the examples: 64 bytes of the (zero-padded)
  input, reversed.
\<close>

definition toy_hash :: "u8 list \<Rightarrow> u8 list" where
  "toy_hash x = rev (take 64 (x @ replicate 64 0))"

section \<open>Buffers and single calls\<close>

lemma length_draw: "length (draw num w k) = nat num"
  by (simp add: draw_def)

lemma store_0: "store buf 0 bs = bs @ drop (length bs) buf"
  by (simp add: store_def)

lemma store_store_0:
  "length bs' = length bs \<Longrightarrow> store (store buf 0 bs) 0 bs' = store buf 0 bs'"
  by (simp add: store_def)

lemma GetRandBytes_eq:
  "GetRandBytes buf num w =
     (if fst (RAND_bytes_src w 0) \<noteq> 1 then RandFailure (RAND_bytes_calls (Suc 0) num w)
      else Inr (store buf 0 (draw num w 0), RAND_bytes_calls (Suc 0) num w))"
  by (simp add: GetRandBytes_def RAND_bytes_def RAND_bytes_calls_def draw_def log_event_def
      split: prod.splits)

lemma RAND_bytes_calls_add:
  "RAND_bytes_calls m num (RAND_bytes_calls n num w) = RAND_bytes_calls (m + n) num w"
proof -
  have "replicate n x @ replicate m x = replicate (m + n) x" for x :: event
    by (simp add: add.commute flip: replicate_add)
  then show ?thesis
    by (simp add: RAND_bytes_calls_def add.assoc)
qed

lemma RAND_bytes_src_calls: "RAND_bytes_src (RAND_bytes_calls n num w) j = RAND_bytes_src w (j + n)"
  by (simp add: RAND_bytes_calls_def)

lemma draw_calls: "draw num (RAND_bytes_calls n num w) j = draw num w (j + n)"
  by (simp add: draw_def RAND_bytes_src_calls)


lemma length_le_bytes: "length (le_bytes n x) = n"
  by (simp add: le_bytes_def)

lemma store_full: "length bs = length buf \<Longrightarrow> store buf 0 bs = bs"
  by (simp add: store_def)

section \<open>The drawing loop\<close>

lemma loop_step:
  assumes "redrawn again num buf w 0"
  shows "do_GetRandBytes_while again num buf w =
         do_GetRandBytes_while again num (store buf 0 (draw num w 0)) (RAND_bytes_calls (Suc 0) num w)"
  using assms
  by (subst do_GetRandBytes_while.simps) (simp add: GetRandBytes_eq redrawn_def)

lemma redrawn_shift:
  "redrawn again num (store buf 0 (draw num w 0)) (RAND_bytes_calls (Suc 0) num w) j
   = redrawn again num buf w (Suc j)"
  by (simp add: redrawn_def RAND_bytes_src_calls draw_calls store_store_0 length_draw)

lemma loop_returns:
  assumes "\<forall>j<k. redrawn again num buf w j"
    and "fst (RAND_bytes_src w k) = 1"
    and "\<not> again (store buf 0 (draw num w k))"
  shows "do_GetRandBytes_while again num buf w =
         Some (Inr (store buf 0 (draw num w k), RAND_bytes_calls (Suc k) num w))"
  using assms
proof (induction k arbitrary: buf w)
  case 0
  then show ?case
    by (subst do_GetRandBytes_while.simps) (simp add: GetRandBytes_eq)
next
  case (Suc k)
  let ?buf = "store buf 0 (draw num w 0)" and ?w = "RAND_bytes_calls (Suc 0) num w"
  have "redrawn again num buf w 0" using Suc.prems(1) by simp
  then have "do_GetRandBytes_while again num buf w = do_GetRandBytes_while again num ?buf ?w"
    by (rule loop_step)
  also have "\<dots> = Some (Inr (store ?buf 0 (draw num ?w k), RAND_bytes_calls (Suc k) num ?w))"
  proof (rule Suc.IH)
    show "\<forall>j<k. redrawn again num ?buf ?w j"
      using Suc.prems(1) by (simp add: redrawn_shift)
    show "fst (RAND_bytes_src ?w k) = 1"
      using Suc.prems(2) by (simp add: RAND_bytes_src_calls)
    show "\<not> again (store ?buf 0 (draw num ?w k))"
      using Suc.prems(3) by (simp add: draw_calls store_store_0 length_draw)
  qed
  also have "store ?buf 0 (draw num ?w k) = store buf 0 (draw num w (Suc k))"
    by (simp add: draw_calls store_store_0 length_draw)
  also have "RAND_bytes_calls (Suc k) num ?w = RAND_bytes_calls (Suc (Suc k)) num w"
    by (simp add: RAND_bytes_calls_add)
  finally show ?case .
qed

lemma loop_aborts:
  assumes "\<forall>j<k. redrawn again num buf w j"
    and "fst (RAND_bytes_src w k) \<noteq> 1"
  shows "do_GetRandBytes_while again num buf w =
         Some (RandFailure (RAND_bytes_calls (Suc k) num w))"
  using assms
proof (induction k arbitrary: buf w)
  case 0
  then show ?case
    by (subst do_GetRandBytes_while.simps) (simp add: GetRandBytes_eq RandFailure_def)
next
  case (Suc k)
  let ?buf = "store buf 0 (draw num w 0)" and ?w = "RAND_bytes_calls (Suc 0) num w"
  have "redrawn again num buf w 0" using Suc.prems(1) by simp
  then have "do_GetRandBytes_while again num buf w = do_GetRandBytes_while again num ?buf ?w"
    by (rule loop_step)
  also have "\<dots> = Some (RandFailure (RAND_bytes_calls (Suc k) num ?w))"
  proof (rule Suc.IH)
    show "\<forall>j<k. redrawn again num ?buf ?w j"
      using Suc.prems(1) by (simp add: redrawn_shift)
    show "fst (RAND_bytes_src ?w k) \<noteq> 1"
      using Suc.prems(2) by (simp add: RAND_bytes_src_calls)
  qed
  also have "RAND_bytes_calls (Suc k) num ?w = RAND_bytes_calls (Suc (Suc k)) num w"
    by (simp add: RAND_bytes_calls_add)
  finally show ?case .
qed

lemma loop_only_leaves:
  assumes "do_GetRandBytes_while again num buf w = Some r"
  shows "leaves again num buf w r"
proof (rule do_GetRandBytes_while.raw_induct[where P = leaves, OF _ assms])
  fix loop again num buf w r
  assume IH: "\<And>again num buf w r. loop again num buf w = Some r \<Longrightarrow> leaves again num buf w r"
    and eq: "(case GetRandBytes buf num w of
                Inl e \<Rightarrow> Some (Inl e)
              | Inr (buf', w1) \<Rightarrow>
                  if again buf' then loop again num buf' w1 else Some (Inr (buf', w1))) = Some r"
  show "leaves again num buf w r"
  proof (cases "redrawn again num buf w 0")
    case True
    let ?buf = "store buf 0 (draw num w 0)" and ?w = "RAND_bytes_calls (Suc 0) num w"
    from True eq have "loop again num ?buf ?w = Some r"
      by (simp add: GetRandBytes_eq redrawn_def)
    then have "leaves again num ?buf ?w r" by (rule IH)
    then obtain k where k: "\<forall>j<k. redrawn again num ?buf ?w j"
      "if fst (RAND_bytes_src ?w k) = 1
           then \<not> again (store ?buf 0 (draw num ?w k)) \<and>
                r = Inr (store ?buf 0 (draw num ?w k), RAND_bytes_calls (Suc k) num ?w)
           else r = RandFailure (RAND_bytes_calls (Suc k) num ?w)"
      unfolding leaves_def by blast
    have "\<forall>j<Suc k. redrawn again num buf w j"
      using True k(1) by (auto simp: redrawn_shift less_Suc_eq_0_disj)
    moreover have "if fst (RAND_bytes_src w (Suc k)) = 1
           then \<not> again (store buf 0 (draw num w (Suc k))) \<and>
                r = Inr (store buf 0 (draw num w (Suc k)), RAND_bytes_calls (Suc (Suc k)) num w)
           else r = RandFailure (RAND_bytes_calls (Suc (Suc k)) num w)"
      using k(2)
      by (simp add: RAND_bytes_src_calls draw_calls store_store_0 length_draw RAND_bytes_calls_add
          cong: if_cong)
    ultimately show ?thesis unfolding leaves_def by blast
  next
    case False
    with eq have "if fst (RAND_bytes_src w 0) = 1
           then \<not> again (store buf 0 (draw num w 0)) \<and>
                r = Inr (store buf 0 (draw num w 0), RAND_bytes_calls (Suc 0) num w)
           else r = RandFailure (RAND_bytes_calls (Suc 0) num w)"
      by (auto simp: GetRandBytes_eq redrawn_def RandFailure_def split: if_splits)
    then show ?thesis unfolding leaves_def by (intro exI[of _ 0]) simp
  qed
qed

lemma loop_iff:
  "do_GetRandBytes_while again num buf w = Some r \<longleftrightarrow> leaves again num buf w r"
proof
  assume "leaves again num buf w r"
  then obtain k where k: "\<forall>j<k. redrawn again num buf w j"
      "if fst (RAND_bytes_src w k) = 1
           then \<not> again (store buf 0 (draw num w k)) \<and>
                r = Inr (store buf 0 (draw num w k), RAND_bytes_calls (Suc k) num w)
           else r = RandFailure (RAND_bytes_calls (Suc k) num w)"
    unfolding leaves_def by blast
  show "do_GetRandBytes_while again num buf w = Some r"
  proof (cases "fst (RAND_bytes_src w k) = 1")
    case True
    with k show ?thesis by (simp add: loop_returns)
  next
    case False
    with k show ?thesis by (simp add: loop_aborts)
  qed
qed (rule loop_only_leaves)

text \<open>
  When the buffer is exactly as long as a draw, the buffer after a call is the draw, and
  the loop returns at the first successful draw that the condition lets pass.
\<close>

lemma loop_Inr_iff:
  assumes "length buf = nat num"
  shows "do_GetRandBytes_while again num buf w = Some (Inr (b, w')) \<longleftrightarrow>
         (\<exists>k. (\<forall>j<k. fst (RAND_bytes_src w j) = 1 \<and> again (draw num w j)) \<and>
              fst (RAND_bytes_src w k) = 1 \<and> \<not> again (draw num w k) \<and>
              b = draw num w k \<and> w' = RAND_bytes_calls (Suc k) num w)"
proof -
  have st: "store buf 0 (draw num w j) = draw num w j" for j
    using assms by (simp add: store_full length_draw)
  show ?thesis
    unfolding loop_iff leaves_def redrawn_def st
    by (auto simp: RandFailure_def split: if_splits)
qed

section \<open>\<open>GetRandBytes\<close>\<close>

text \<open>
  Claim C8. \<open>GetRandBytes\<close> returns normally if and only if \<open>RAND_bytes\<close> returns 1, and
  then the buffer holds the bytes the generator produced. On any other return value the
  run ends in \<open>abort()\<close> after one call of \<open>RAND_bytes\<close> followed by the diagnostic of
  \<open>RandFailure\<close>: the call is not repeated and no value is returned in its place.
\<close>

theorem GetRandBytes_returns_iff:
  "((\<exists>buf' w'. GetRandBytes buf num w = Inr (buf', w')) \<longleftrightarrow> fst (fst (RAND_bytes buf num w)) = 1) \<and>
   (fst (fst (RAND_bytes buf num w)) = 1 \<longrightarrow>
      GetRandBytes buf num w = Inr (snd (fst (RAND_bytes buf num w)), snd (RAND_bytes buf num w)) \<and>
      snd (fst (RAND_bytes buf num w)) = store buf 0 (draw num w 0)) \<and>
   (fst (fst (RAND_bytes buf num w)) \<noteq> 1 \<longrightarrow>
      (\<exists>w'. GetRandBytes buf num w = Inl (abort, w') \<and>
            trace w' = trace w @ [Call_RAND_bytes num, Call_LogPrintf RandFailure_msg []] \<and>
            RAND_bytes_src w' = (\<lambda>k. RAND_bytes_src w (Suc k))))"
  by (auto simp: GetRandBytes_def RAND_bytes_def RandFailure_def LogPrintf_def log_event_def
      draw_def split: prod.splits)

theorem GetRandBytes_returns_iff_witness:
  "GetRandBytes [0, 0, 0, 0] 2 quiet_world = Inr ([0, 1, 0, 0], RAND_bytes_calls 1 2 quiet_world) \<and>
   (\<exists>w'. GetRandBytes [0, 0, 0, 0] 2 failing_generator_world = Inl (abort, w') \<and>
         trace w' = [Call_RAND_bytes 2, Call_LogPrintf RandFailure_msg []])"
proof -
  have "fst (fst (RAND_bytes [0, 0, 0, 0] 2 quiet_world)) = 1"
    by (simp add: RAND_bytes_def quiet_world_def)
  moreover have "fst (fst (RAND_bytes [0, 0, 0, 0] 2 failing_generator_world)) \<noteq> 1"
    by (simp add: RAND_bytes_def quiet_world_def failing_generator_world_def)
  moreover have "trace failing_generator_world = []"
    by (simp add: quiet_world_def failing_generator_world_def)
  moreover have "snd (RAND_bytes [0, 0, 0, 0] 2 quiet_world) = RAND_bytes_calls 1 2 quiet_world"
    by (simp add: RAND_bytes_def RAND_bytes_calls_def log_event_def split: prod.splits)
  moreover have "store [0, 0, 0, 0] 0 (draw 2 quiet_world 0) = [0, 1, 0, 0]"
    by (simp add: store_def draw_def quiet_world_def upt_rec)
  ultimately show ?thesis
    using GetRandBytes_returns_iff[of "[0, 0, 0, 0]" 2 quiet_world]
      GetRandBytes_returns_iff[of "[0, 0, 0, 0]" 2 failing_generator_world]
    by auto
qed

section \<open>Counting the accepted draws of \<open>GetRand\<close>\<close>


lemma unat_nRange_of: "unat (nRange_of nMax) = (unat UINT64_MAX div unat nMax) * unat nMax"
proof -
  have "unat (UINT64_MAX div nMax) * unat nMax \<le> unat UINT64_MAX"
    by (simp add: unat_div)
  also have "\<dots> < 2 ^ LENGTH(64)" by (rule unsigned_less)
  finally show ?thesis
    unfolding nRange_of_def by (simp add: unat_mult_lem[THEN iffD1] unat_div)
qed



lemma unat_UINT64_MAX: "unat UINT64_MAX = 2 ^ 64 - 1"
  by (simp add: UINT64_MAX_def unsigned_minus_1_eq_mask mask_eq_exp_minus_1)

lemma nRange_of_le_iff:
  "nRange_of nMax \<le> v \<longleftrightarrow> ((2 ^ 64 - 1) div unat nMax) * unat nMax \<le> unat v"
  by (simp add: word_le_nat_alt unat_nRange_of unat_UINT64_MAX)

lemma less_nRange_of_iff:
  "v < nRange_of nMax \<longleftrightarrow> unat v < ((2 ^ 64 - 1) div unat nMax) * unat nMax"
  by (simp add: word_less_nat_alt unat_nRange_of unat_UINT64_MAX)



section \<open>\<open>GetRand\<close>\<close>

lemma GetRand_Inr_iff:
  assumes "nMax \<noteq> 0"
  shows "GetRand nMax w = Some (Inr (r, w')) \<longleftrightarrow>
         (\<exists>k. (\<forall>j<k. fst (RAND_bytes_src w j) = 1 \<and> nRange_of nMax \<le> le_word (draw 8 w j)) \<and>
              fst (RAND_bytes_src w k) = 1 \<and>
              le_word (draw 8 w k) < nRange_of nMax \<and>
              r = le_word (draw 8 w k) mod nMax \<and>
              w' = RAND_bytes_calls (Suc k) 8 w)"
proof -
  have len: "length (le_bytes 8 (0 :: u64)) = nat 8" by (simp add: length_le_bytes)
  have "GetRand nMax w = Some (Inr (r, w')) \<longleftrightarrow>
        (\<exists>b. do_GetRandBytes_while (\<lambda>b. nRange_of nMax \<le> (le_word b :: u64)) 8 (le_bytes 8 (0 :: u64)) w
               = Some (Inr (b, w')) \<and> r = le_word b mod nMax)"
    using assms by (auto simp: GetRand_def split: option.splits sum.splits)
  then show ?thesis
    unfolding loop_Inr_iff[OF len] by (auto simp: not_le)
qed

lemma GetRand_less:
  assumes "nMax \<noteq> 0" and "GetRand nMax w = Some (Inr (r, w'))"
  shows "r < nMax"
proof -
  from assms have "\<exists>v. r = v mod nMax"
    by (auto simp: GetRand_def split: option.splits sum.splits)
  then show ?thesis
    using assms(1) by (auto simp: word_mod_less_divisor word_greater_zero_iff)
qed




text \<open>
  Claim C2. \<open>GetRand(0)\<close> returns 0 (without drawing). For \<open>nMax > 0\<close>, \<open>GetRand(nMax)\<close>
  returns \<open>r\<close> exactly when some draw \<open>v\<close> of the generator is the first one below
  \<open>nRange = (UINT64_MAX / nMax) * nMax\<close>, every earlier draw having succeeded and been
  rejected, and then \<open>r = v % nMax\<close>; every value returned is below \<open>nMax\<close>.
\<close>

theorem GetRand_range:
  "GetRand 0 w = Some (Inr (0, w)) \<and>
   (nMax \<noteq> 0 \<longrightarrow>
      (GetRand nMax w = Some (Inr (r, w')) \<longleftrightarrow>
         (\<exists>k. (\<forall>j<k. fst (RAND_bytes_src w j) = 1 \<and> nRange_of nMax \<le> le_word (draw 8 w j)) \<and>
              fst (RAND_bytes_src w k) = 1 \<and>
              le_word (draw 8 w k) < nRange_of nMax \<and>
              r = le_word (draw 8 w k) mod nMax \<and>
              w' = RAND_bytes_calls (Suc k) 8 w)) \<and>
      (GetRand nMax w = Some (Inr (r, w')) \<longrightarrow> r < nMax))"
  using GetRand_Inr_iff[of nMax w r w'] GetRand_less[of nMax w r w']
  by (simp add: GetRand_def)

theorem GetRand_range_witness:
  "GetRand 0 two_draws_world = Some (Inr (0, two_draws_world)) \<and>
   GetRand 3 two_draws_world = Some (Inr (1, RAND_bytes_calls 2 8 two_draws_world)) \<and>
   (1 :: u64) < 3"
proof -
  have d0: "draw 8 two_draws_world 0 = [255, 255, 255, 255, 255, 255, 255, 255]"
    by (simp add: draw_def two_draws_world_def upt_rec)
  have d1: "draw 8 two_draws_world (Suc 0) = [7, 0, 0, 0, 0, 0, 0, 0]"
    by (simp add: draw_def two_draws_world_def upt_rec)
  have ok: "fst (RAND_bytes_src two_draws_world j) = 1" for j
    by (simp add: two_draws_world_def)
  have v0: "nRange_of 3 \<le> (le_word (draw 8 two_draws_world 0) :: u64)"
    by (simp add: d0 nRange_of_le_iff)
  have v1: "(le_word (draw 8 two_draws_world (Suc 0)) :: u64) < nRange_of 3"
    by (simp add: d1 less_nRange_of_iff)
  have r1: "(1 :: u64) = le_word (draw 8 two_draws_world (Suc 0)) mod 3"
    by (simp add: d1)
  have two: "RAND_bytes_calls 2 8 two_draws_world = RAND_bytes_calls (Suc (Suc 0)) 8 two_draws_world"
    by (simp add: numeral_2_eq_2)
  have "\<exists>k. (\<forall>j<k. fst (RAND_bytes_src two_draws_world j) = 1 \<and>
                    nRange_of 3 \<le> le_word (draw 8 two_draws_world j)) \<and>
            fst (RAND_bytes_src two_draws_world k) = 1 \<and>
            le_word (draw 8 two_draws_world k) < nRange_of 3 \<and>
            (1 :: u64) = le_word (draw 8 two_draws_world k) mod 3 \<and>
            RAND_bytes_calls 2 8 two_draws_world = RAND_bytes_calls (Suc k) 8 two_draws_world"
    by (rule exI[of _ "Suc 0"]) (simp add: ok v0 v1 two flip: r1)
  then show ?thesis
    using GetRand_range[of two_draws_world 3 1 "RAND_bytes_calls 2 8 two_draws_world"]
    by simp
qed

section \<open>The constructor of \<open>FastRandomContext\<close>\<close>

lemma ctor_iff:
  "FastRandomContext_ctor False w = Some (Inr (c, w')) \<longleftrightarrow>
     (\<exists>k m. (\<forall>j<k. fst (RAND_bytes_src w j) = 1 \<and> (draw32 w j = 0 \<or> draw32 w j = 0x9068ffff)) \<and>
            fst (RAND_bytes_src w k) = 1 \<and> draw32 w k \<noteq> 0 \<and> draw32 w k \<noteq> 0x9068ffff \<and>
            (\<forall>j<m. fst (RAND_bytes_src w (Suc k + j)) = 1 \<and>
                    (draw32 w (Suc k + j) = 0 \<or> draw32 w (Suc k + j) = 0x464fffff)) \<and>
            fst (RAND_bytes_src w (Suc k + m)) = 1 \<and>
            draw32 w (Suc k + m) \<noteq> 0 \<and> draw32 w (Suc k + m) \<noteq> 0x464fffff \<and>
            c = \<lparr>Rz = draw32 w k, Rw = draw32 w (Suc k + m)\<rparr> \<and>
            w' = RAND_bytes_calls (Suc k + Suc m) 4 w)"
  (is "?L \<longleftrightarrow> ?R")
proof -
  let ?againz = "\<lambda>tmp. (le_word tmp :: u32) = 0 \<or> (le_word tmp :: u32) = 0x9068ffff"
  let ?againw = "\<lambda>tmp. (le_word tmp :: u32) = 0 \<or> (le_word tmp :: u32) = 0x464fffff"
  let ?tmp = "map (uninitialised w) [0..<4]"
  have len0: "length ?tmp = nat 4" by simp
  have unfold: "?L \<longleftrightarrow>
    (\<exists>tmp1 w1 tmp2.
       do_GetRandBytes_while ?againz 4 ?tmp w = Some (Inr (tmp1, w1)) \<and>
       do_GetRandBytes_while ?againw 4 tmp1 w1 = Some (Inr (tmp2, w')) \<and>
       c = \<lparr>Rz = le_word tmp1, Rw = le_word tmp2\<rparr>)"
    by (auto simp: FastRandomContext_ctor_def Let_def split: option.splits sum.splits)
  show ?thesis
  proof
    assume ?L
    then obtain tmp1 w1 tmp2 where
      l1: "do_GetRandBytes_while ?againz 4 ?tmp w = Some (Inr (tmp1, w1))" and
      l2: "do_GetRandBytes_while ?againw 4 tmp1 w1 = Some (Inr (tmp2, w'))" and
      c: "c = \<lparr>Rz = le_word tmp1, Rw = le_word tmp2\<rparr>"
      unfolding unfold by blast
    from l1 obtain k where k:
      "\<forall>j<k. fst (RAND_bytes_src w j) = 1 \<and> ?againz (draw 4 w j)"
      "fst (RAND_bytes_src w k) = 1" "\<not> ?againz (draw 4 w k)"
      "tmp1 = draw 4 w k" "w1 = RAND_bytes_calls (Suc k) 4 w"
      unfolding loop_Inr_iff[OF len0] by blast
    have len1: "length tmp1 = nat 4" by (simp add: k(4) length_draw)
    from l2 obtain m where m:
      "\<forall>j<m. fst (RAND_bytes_src w1 j) = 1 \<and> ?againw (draw 4 w1 j)"
      "fst (RAND_bytes_src w1 m) = 1" "\<not> ?againw (draw 4 w1 m)"
      "tmp2 = draw 4 w1 m" "w' = RAND_bytes_calls (Suc m) 4 w1"
      unfolding loop_Inr_iff[OF len1] by blast
    show ?R
      apply (rule exI[of _ k], rule exI[of _ m])
      using k m c
      by (simp add: draw32_def RAND_bytes_src_calls draw_calls RAND_bytes_calls_add add.commute)
  next
    assume ?R
    then obtain k m where km:
      "\<forall>j<k. fst (RAND_bytes_src w j) = 1 \<and> (draw32 w j = 0 \<or> draw32 w j = 0x9068ffff)"
      "fst (RAND_bytes_src w k) = 1" "draw32 w k \<noteq> 0" "draw32 w k \<noteq> 0x9068ffff"
      "\<forall>j<m. fst (RAND_bytes_src w (Suc k + j)) = 1 \<and>
                    (draw32 w (Suc k + j) = 0 \<or> draw32 w (Suc k + j) = 0x464fffff)"
      "fst (RAND_bytes_src w (Suc k + m)) = 1"
      "draw32 w (Suc k + m) \<noteq> 0" "draw32 w (Suc k + m) \<noteq> 0x464fffff"
      "c = \<lparr>Rz = draw32 w k, Rw = draw32 w (Suc k + m)\<rparr>"
      "w' = RAND_bytes_calls (Suc k + Suc m) 4 w"
      by blast
    let ?w1 = "RAND_bytes_calls (Suc k) 4 w"
    have l1: "do_GetRandBytes_while ?againz 4 ?tmp w = Some (Inr (draw 4 w k, ?w1))"
      unfolding loop_Inr_iff[OF len0]
      using km(1-4) by (intro exI[of _ k]) (simp add: draw32_def)
    have len1: "length (draw 4 w k) = nat 4" by (simp add: length_draw)
    have l2: "do_GetRandBytes_while ?againw 4 (draw 4 w k) ?w1 = Some (Inr (draw 4 w (Suc k + m), w'))"
      unfolding loop_Inr_iff[OF len1]
      using km(5-8,10)
      by (intro exI[of _ m])
         (simp add: draw32_def RAND_bytes_src_calls draw_calls RAND_bytes_calls_add add.commute)
    show ?L
      unfolding unfold using l1 l2 km(9) by (auto simp: draw32_def)
  qed
qed

text \<open>
  Claim C6. The constructor in non-deterministic mode returns exactly when the generator
  delivers a first 32-bit draw that is neither 0 nor \<open>0x9068ffff\<close> (every earlier draw
  being one of the two, and redrawn) and, after it, a first draw that is neither 0 nor
  \<open>0x464fffff\<close>; \<open>Rz\<close> is the former and \<open>Rw\<close> the latter. So after the constructor
  returns, \<open>Rz\<close> is neither 0 nor \<open>0x9068ffff\<close> and \<open>Rw\<close> is neither 0 nor
  \<open>0x464fffff\<close>.
\<close>

theorem FastRandomContext_seeds:
  "(FastRandomContext_ctor False w = Some (Inr (c, w')) \<longleftrightarrow>
     (\<exists>k m. (\<forall>j<k. fst (RAND_bytes_src w j) = 1 \<and> (draw32 w j = 0 \<or> draw32 w j = 0x9068ffff)) \<and>
            fst (RAND_bytes_src w k) = 1 \<and> draw32 w k \<noteq> 0 \<and> draw32 w k \<noteq> 0x9068ffff \<and>
            (\<forall>j<m. fst (RAND_bytes_src w (Suc k + j)) = 1 \<and>
                    (draw32 w (Suc k + j) = 0 \<or> draw32 w (Suc k + j) = 0x464fffff)) \<and>
            fst (RAND_bytes_src w (Suc k + m)) = 1 \<and>
            draw32 w (Suc k + m) \<noteq> 0 \<and> draw32 w (Suc k + m) \<noteq> 0x464fffff \<and>
            c = \<lparr>Rz = draw32 w k, Rw = draw32 w (Suc k + m)\<rparr> \<and>
            w' = RAND_bytes_calls (Suc k + Suc m) 4 w)) \<and>
   (FastRandomContext_ctor False w = Some (Inr (c, w')) \<longrightarrow>
      Rz c \<noteq> 0 \<and> Rz c \<noteq> 0x9068ffff \<and> Rw c \<noteq> 0 \<and> Rw c \<noteq> 0x464fffff)"
proof (intro conjI impI)
  assume "FastRandomContext_ctor False w = Some (Inr (c, w'))"
  then show "Rz c \<noteq> 0" "Rz c \<noteq> 0x9068ffff" "Rw c \<noteq> 0" "Rw c \<noteq> 0x464fffff"
    unfolding ctor_iff by auto
qed (rule ctor_iff)

theorem FastRandomContext_seeds_witness:
  "FastRandomContext_ctor False seeding_world =
     Some (Inr (\<lparr>Rz = 5, Rw = 9\<rparr>, RAND_bytes_calls 4 4 seeding_world))"
proof -
  have ok: "fst (RAND_bytes_src seeding_world j) = 1" for j
    by (simp add: seeding_world_def)
  have d0: "draw32 seeding_world 0 = 0"
    by (simp add: draw32_def draw_def seeding_world_def upt_rec)
  have d1: "draw32 seeding_world (Suc 0) = 5"
    by (simp add: draw32_def draw_def seeding_world_def upt_rec)
  have d2: "draw32 seeding_world (Suc (Suc 0)) = 0x464fffff"
    by (simp add: draw32_def draw_def seeding_world_def upt_rec)
  have d3: "draw32 seeding_world (Suc (Suc (Suc 0))) = 9"
    by (simp add: draw32_def draw_def seeding_world_def upt_rec)
  have four: "RAND_bytes_calls 4 4 seeding_world
              = RAND_bytes_calls (Suc (Suc 0) + Suc (Suc 0)) 4 seeding_world"
    by (simp add: eval_nat_numeral)
  have "\<exists>k m. (\<forall>j<k. fst (RAND_bytes_src seeding_world j) = 1 \<and>
                  (draw32 seeding_world j = 0 \<or> draw32 seeding_world j = 0x9068ffff)) \<and>
            fst (RAND_bytes_src seeding_world k) = 1 \<and>
            draw32 seeding_world k \<noteq> 0 \<and> draw32 seeding_world k \<noteq> 0x9068ffff \<and>
            (\<forall>j<m. fst (RAND_bytes_src seeding_world (Suc k + j)) = 1 \<and>
                    (draw32 seeding_world (Suc k + j) = 0 \<or>
                     draw32 seeding_world (Suc k + j) = 0x464fffff)) \<and>
            fst (RAND_bytes_src seeding_world (Suc k + m)) = 1 \<and>
            draw32 seeding_world (Suc k + m) \<noteq> 0 \<and>
            draw32 seeding_world (Suc k + m) \<noteq> 0x464fffff \<and>
            \<lparr>Rz = 5, Rw = 9\<rparr> = \<lparr>Rz = draw32 seeding_world k, Rw = draw32 seeding_world (Suc k + m)\<rparr> \<and>
            RAND_bytes_calls 4 4 seeding_world = RAND_bytes_calls (Suc k + Suc m) 4 seeding_world"
    by (rule exI[of _ "Suc 0"], rule exI[of _ "Suc 0"]) (simp add: ok d0 d1 d2 d3 four)
  then show ?thesis
    using FastRandomContext_seeds[of seeding_world "\<lparr>Rz = 5, Rw = 9\<rparr>"
        "RAND_bytes_calls 4 4 seeding_world"]
    by simp
qed

text \<open>
  Claim C7. In deterministic mode the constructor sets \<open>Rz\<close> and \<open>Rw\<close> to 11 and leaves
  the world as it is (nothing is drawn), whatever the world. Two instances constructed in
  deterministic mode therefore have the same state, and the same sequence of calls
  produces the same outputs on both.
\<close>

theorem FastRandomContext_deterministic:
  "FastRandomContext_ctor True w = Some (Inr (\<lparr>Rz = 11, Rw = 11\<rparr>, w)) \<and>
   (FastRandomContext_ctor True w1 = Some (Inr (c1, w1')) \<and>
    FastRandomContext_ctor True w2 = Some (Inr (c2, w2')) \<longrightarrow>
      c1 = c2 \<and> w1' = w1 \<and> w2' = w2 \<and> run_calls calls c1 = run_calls calls c2)"
  by (auto simp: FastRandomContext_ctor_def)

theorem FastRandomContext_deterministic_witness:
  "\<exists>c1 c2 w1' w2'.
     FastRandomContext_ctor True quiet_world = Some (Inr (c1, w1')) \<and>
     FastRandomContext_ctor True failing_generator_world = Some (Inr (c2, w2')) \<and>
     c1 = c2 \<and> w1' = quiet_world \<and> w2' = failing_generator_world \<and>
     run_calls [\<lambda>c. (Rz c + Rw c, c\<lparr>Rz := Rw c, Rw := Rz c + Rw c\<rparr>),
                \<lambda>c. (Rw c, c)] c1 = [22, 22] \<and>
     run_calls [\<lambda>c. (Rz c + Rw c, c\<lparr>Rz := Rw c, Rw := Rz c + Rw c\<rparr>),
                \<lambda>c. (Rw c, c)] c2 = [22, 22]"
proof -
  obtain c1 w1' where a: "FastRandomContext_ctor True quiet_world = Some (Inr (c1, w1'))"
    using FastRandomContext_deterministic[THEN conjunct1, of quiet_world] by blast
  obtain c2 w2' where b: "FastRandomContext_ctor True failing_generator_world = Some (Inr (c2, w2'))"
    using FastRandomContext_deterministic[THEN conjunct1, of failing_generator_world] by blast
  have same: "c1 = c2 \<and> w1' = quiet_world \<and> w2' = failing_generator_world"
    using FastRandomContext_deterministic[THEN conjunct2, rule_format, OF conjI, OF a b,
        of "[]"]
    by blast
  have c1: "c1 = \<lparr>Rz = 11, Rw = 11\<rparr>"
    using a by (simp add: FastRandomContext_ctor_def)
  have c2: "c2 = \<lparr>Rz = 11, Rw = 11\<rparr>"
    using same c1 by simp
  show ?thesis
    apply (rule exI[of _ c1], rule exI[of _ c2], rule exI[of _ w1'], rule exI[of _ w2'])
    using a b same by (simp add: c1 c2)
qed

section \<open>\<open>GetRandInt\<close>\<close>








section \<open>\<open>GetOSRand\<close>\<close>

lemma length_chunk: "length (chunk w) = nat (fst (read_src w 0))"
  by (simp add: chunk_def)

lemma sys_read_eq:
  "sys_read f buf off count w = ((fst (read_src w 0), store buf off (chunk w)), after_read f count w)"
  by (simp add: sys_read_def chunk_def after_read_def split: prod.splits)

lemma length_store:
  "off + length bs \<le> length buf \<Longrightarrow> length (store buf off bs) = length buf"
  by (simp add: store_def)

lemma take_store:
  "off + length bs \<le> length buf \<Longrightarrow> take (off + length bs) (store buf off bs) = take off buf @ bs"
  by (simp add: store_def)

lemma drop_store:
  "off + length bs \<le> m \<Longrightarrow> m \<le> length buf \<Longrightarrow> drop m (store buf off bs) = drop m buf"
  by (simp add: store_def)

lemma GetOSRand_loop_unfold:
  "GetOSRand_loop f ent32 have w =
     (if fst (read_src w 0) \<le> 0 \<or> fst (read_src w 0) + have > 32
      then RandFailure (after_read f (nat (32 - have)) w)
      else if have + fst (read_src w 0) < 32
        then GetOSRand_loop f (store ent32 (nat have) (chunk w)) (have + fst (read_src w 0))
               (after_read f (nat (32 - have)) w)
        else Inr ((store ent32 (nat have) (chunk w), have + fst (read_src w 0)),
                  after_read f (nat (32 - have)) w))"
  by (subst GetOSRand_loop.simps) (simp add: sys_read_eq Let_def)

lemma GetOSRand_loop_fill:
  assumes "GetOSRand_loop f ent have w = Inr ((e', h'), w')"
    and "0 \<le> have" and "have < 32" and "32 \<le> length ent"
  shows "\<exists>B. length B = nat (32 - have) \<and>
             (\<forall>ent'. 32 \<le> length ent' \<longrightarrow>
                GetOSRand_loop f ent' have w
                  = Inr ((take (nat have) ent' @ B @ drop 32 ent', 32), w'))"
  using assms
proof (induction "nat (32 - have)" arbitrary: ent "have" w rule: less_induct)
  case less
  let ?n = "fst (read_src w 0)"
  let ?w1 = "after_read f (nat (32 - have)) w"
  have "\<not> (?n \<le> 0 \<or> ?n + have > 32)"
  proof
    assume "?n \<le> 0 \<or> ?n + have > 32"
    then have "GetOSRand_loop f ent have w = RandFailure ?w1"
      by (subst GetOSRand_loop_unfold) simp
    with less.prems(1) show False by (simp add: RandFailure_def)
  qed
  then have ok: "0 < ?n" "?n + have \<le> 32" by simp_all
  have len: "length (chunk w) = nat ?n" by (rule length_chunk)
  have fit: "nat have + length (chunk w) \<le> 32"
    using ok less.prems(2) by (simp add: len)
  have tk: "take (nat (have + ?n)) (store x (nat have) (chunk w)) = take (nat have) x @ chunk w"
    if "32 \<le> length x" for x
  proof -
    have "nat (have + ?n) = nat have + length (chunk w)"
      using ok less.prems(2) by (simp add: len nat_add_distrib)
    then show ?thesis using that fit by (simp add: take_store)
  qed
  have dr: "drop 32 (store x (nat have) (chunk w)) = drop 32 x" if "32 \<le> length x" for x
    using that fit by (simp add: drop_store)
  have ln: "length (store x (nat have) (chunk w)) = length x" if "32 \<le> length x" for x
    using that fit by (simp add: length_store)
  show ?case
  proof (cases "have + ?n < 32")
    case True
    from less.prems(1) True ok
    have rec: "GetOSRand_loop f (store ent (nat have) (chunk w)) (have + ?n) ?w1
               = Inr ((e', h'), w')"
      by (subst (asm) GetOSRand_loop_unfold) simp
    have "\<exists>B. length B = nat (32 - (have + ?n)) \<and>
             (\<forall>ent'. 32 \<le> length ent' \<longrightarrow>
                GetOSRand_loop f ent' (have + ?n) ?w1
                  = Inr ((take (nat (have + ?n)) ent' @ B @ drop 32 ent', 32), w'))"
    proof (rule less.hyps[OF _ rec])
      show "nat (32 - (have + ?n)) < nat (32 - have)" using ok True by simp
      show "0 \<le> have + ?n" using ok less.prems(2) by simp
      show "have + ?n < 32" by (rule True)
      show "32 \<le> length (store ent (nat have) (chunk w))" using less.prems(4) by (simp add: ln)
    qed
    then obtain B where B: "length B = nat (32 - (have + ?n))"
      "\<And>ent'. 32 \<le> length ent' \<Longrightarrow>
                GetOSRand_loop f ent' (have + ?n) ?w1
                  = Inr ((take (nat (have + ?n)) ent' @ B @ drop 32 ent', 32), w')"
      by blast
    show ?thesis
    proof (intro exI[of _ "chunk w @ B"] conjI allI impI)
      show "length (chunk w @ B) = nat (32 - have)"
        using ok True less.prems(2) by (simp add: len B(1))
    next
      fix x :: "u8 list"
      assume x: "32 \<le> length x"
      have "GetOSRand_loop f x have w
            = GetOSRand_loop f (store x (nat have) (chunk w)) (have + ?n) ?w1"
        using ok True by (subst GetOSRand_loop_unfold) simp
      also have "\<dots> = Inr ((take (nat (have + ?n)) (store x (nat have) (chunk w)) @ B
                               @ drop 32 (store x (nat have) (chunk w)), 32), w')"
        using x by (intro B(2)) (simp add: ln)
      finally show "GetOSRand_loop f x have w
                    = Inr ((take (nat have) x @ (chunk w @ B) @ drop 32 x, 32), w')"
        using x by (simp add: tk dr)
    qed
  next
    case False
    with ok have full: "have + ?n = 32" by simp
    from less.prems(1) False ok have w': "w' = ?w1"
      by (subst (asm) GetOSRand_loop_unfold) simp
    show ?thesis
    proof (intro exI[of _ "chunk w"] conjI allI impI)
      show "length (chunk w) = nat (32 - have)"
        using full by (simp add: len)
    next
      fix x :: "u8 list"
      assume x: "32 \<le> length x"
      have s: "store x (nat have) (chunk w) = take (nat have) x @ chunk w @ drop 32 x"
        using fit full less.prems(2) x
        by (simp add: store_def len flip: nat_add_distrib)
      show "GetOSRand_loop f x have w = Inr ((take (nat have) x @ chunk w @ drop 32 x, 32), w')"
        using ok False full by (subst GetOSRand_loop_unfold) (simp add: s w')
    qed
  qed
qed

lemma reads_after_read: "reads (after_read f c w) = Suc (reads w)"
  by (simp add: reads_def after_read_def log_event_def)

lemma reads_RandFailure: "reads (final_world (RandFailure w :: 'a outcome)) = reads w"
  by (simp add: reads_def RandFailure_def LogPrintf_def log_event_def)

lemma GetOSRand_loop_reads:
  assumes "0 \<le> have" and "have < 32"
  shows "reads (final_world (GetOSRand_loop f ent have w)) \<le> reads w + nat (32 - have)"
  using assms
proof (induction "nat (32 - have)" arbitrary: ent "have" w rule: less_induct)
  case less
  let ?n = "fst (read_src w 0)"
  let ?w1 = "after_read f (nat (32 - have)) w"
  show ?case
  proof (cases "?n \<le> 0 \<or> ?n + have > 32")
    case True
    then have "GetOSRand_loop f ent have w = RandFailure ?w1"
      by (subst GetOSRand_loop_unfold) simp
    then show ?thesis using less.prems
      by (simp add: reads_RandFailure reads_after_read)
  next
    case False
    then have ok: "0 < ?n" "?n + have \<le> 32" by simp_all
    show ?thesis
    proof (cases "have + ?n < 32")
      case True
      have "GetOSRand_loop f ent have w
            = GetOSRand_loop f (store ent (nat have) (chunk w)) (have + ?n) ?w1"
        using ok True by (subst GetOSRand_loop_unfold) simp
      moreover have "reads (final_world (GetOSRand_loop f (store ent (nat have) (chunk w)) (have + ?n) ?w1))
                     \<le> reads ?w1 + nat (32 - (have + ?n))"
        using ok True less.prems by (intro less.hyps) simp_all
      ultimately show ?thesis
        using ok True less.prems by (simp add: reads_after_read)
    next
      case False
      then have "GetOSRand_loop f ent have w
                 = Inr ((store ent (nat have) (chunk w), have + ?n), ?w1)"
        using ok by (subst GetOSRand_loop_unfold) simp
      then show ?thesis using less.prems by (simp add: reads_after_read)
    qed
  qed
qed

lemma GetOSRand_loop_Inl:
  assumes "GetOSRand_loop f ent have w = Inl (s, w')"
  shows "s = abort \<and> (\<exists>evs. trace w' = trace w @ evs @ [Call_LogPrintf RandFailure_msg []])"
  using assms
proof (induction "nat (32 - have)" arbitrary: ent "have" w rule: less_induct)
  case less
  let ?n = "fst (read_src w 0)"
  let ?w1 = "after_read f (nat (32 - have)) w"
  have tr: "trace ?w1 = trace w @ [Call_read f (nat (32 - have))]"
    by (simp add: after_read_def log_event_def)
  show ?case
  proof (cases "?n \<le> 0 \<or> ?n + have > 32")
    case True
    then have "GetOSRand_loop f ent have w = RandFailure ?w1"
      by (subst GetOSRand_loop_unfold) simp
    with less.prems show ?thesis
      by (auto simp: RandFailure_def LogPrintf_def log_event_def tr)
  next
    case False
    then have ok: "0 < ?n" "?n + have \<le> 32" by simp_all
    show ?thesis
    proof (cases "have + ?n < 32")
      case True
      have eq: "GetOSRand_loop f ent have w
            = GetOSRand_loop f (store ent (nat have) (chunk w)) (have + ?n) ?w1"
        using ok True by (subst GetOSRand_loop_unfold) simp
      have "s = abort \<and> (\<exists>evs. trace w' = trace ?w1 @ evs @ [Call_LogPrintf RandFailure_msg []])"
      proof (rule less.hyps)
        show "nat (32 - (have + ?n)) < nat (32 - have)" using ok True by simp
        show "GetOSRand_loop f (store ent (nat have) (chunk w)) (have + ?n) ?w1 = Inl (s, w')"
          using less.prems eq by simp
      qed
      then show ?thesis by (auto simp: tr)
    next
      case False
      then have "GetOSRand_loop f ent have w
                 = Inr ((store ent (nat have) (chunk w), have + ?n), ?w1)"
        using ok by (subst GetOSRand_loop_unfold) simp
      with less.prems show ?thesis by simp
    qed
  qed
qed

lemma reads_log_event [simp]: "reads (log_event e w) = reads w + (if is_read e then 1 else 0)"
  by (simp add: reads_def log_event_def)

lemma GetOSRand_Inr_fill:
  assumes "GetOSRand ent w = Inr (e', w')" and "32 \<le> length ent"
  shows "\<exists>B. length B = 32 \<and>
             (\<forall>x. 32 \<le> length x \<longrightarrow> GetOSRand x w = Inr (B @ drop 32 x, w'))"
proof (cases "WIN32 w")
  case True
  let ?B = "map (snd (CryptGenRandom_src (snd (CryptAcquireContextW w)) 0)) [0..<32]"
  from assms(1) True have "\<forall>x. GetOSRand x w = Inr (store x 0 ?B, w')"
    by (auto simp: GetOSRand_def CryptGenRandom_def RandFailure_def
        split: prod.splits if_splits)
  then show ?thesis
    by (intro exI[of _ ?B]) (simp add: store_0)
next
  case False
  let ?f = "open_src w 0"
  let ?w1 = "snd (sys_open ''/dev/urandom'' w)"
  from assms(1) False obtain h w2 where
    f: "?f \<noteq> - 1" and l: "GetOSRand_loop ?f ent 0 ?w1 = Inr ((e', h), w2)"
    and w': "w' = sys_close ?f w2"
    by (auto simp: GetOSRand_def sys_open_def RandFailure_def Let_def
        split: prod.splits if_splits sum.splits)
  from GetOSRand_loop_fill[OF l _ _ assms(2)]
  obtain B where B: "length B = 32"
    "\<And>x. 32 \<le> length x \<Longrightarrow> GetOSRand_loop ?f x 0 ?w1 = Inr ((B @ drop 32 x, 32), w2)"
    by auto
  show ?thesis
  proof (intro exI[of _ B] conjI allI impI)
    fix x :: "u8 list"
    assume "32 \<le> length x"
    then have "GetOSRand_loop ?f x 0 ?w1 = Inr ((B @ drop 32 x, 32), w2)" by (rule B(2))
    then show "GetOSRand x w = Inr (B @ drop 32 x, w')"
      using False f by (simp add: GetOSRand_def sys_open_def w' split: prod.splits)
  qed (rule B(1))
qed

lemma GetOSRand_Inl_abort:
  assumes "GetOSRand ent w = Inl (s, w')"
  shows "s = abort \<and> (\<exists>evs. trace w' = trace w @ evs @ [Call_LogPrintf RandFailure_msg []])"
proof (cases "WIN32 w")
  case True
  with assms show ?thesis
    by (auto simp: GetOSRand_def CryptAcquireContextW_def CryptGenRandom_def RandFailure_def
        LogPrintf_def log_event_def split: prod.splits if_splits)
next
  case False
  let ?f = "open_src w 0"
  let ?w1 = "snd (sys_open ''/dev/urandom'' w)"
  have tr: "trace ?w1 = trace w @ [Call_open ''/dev/urandom'']"
    by (simp add: sys_open_def log_event_def)
  show ?thesis
  proof (cases "?f = - 1")
    case True
    with assms \<open>\<not> WIN32 w\<close> show ?thesis
      by (auto simp: GetOSRand_def sys_open_def RandFailure_def LogPrintf_def log_event_def)
  next
    case f: False
    with assms \<open>\<not> WIN32 w\<close> have "GetOSRand_loop ?f ent 0 ?w1 = Inl (s, w')"
      by (auto simp: GetOSRand_def sys_open_def Let_def split: prod.splits sum.splits)
    from GetOSRand_loop_Inl[OF this] show ?thesis by (auto simp: tr)
  qed
qed

lemma GetOSRand_reads: "reads (final_world (GetOSRand ent w)) \<le> reads w + 32"
proof (cases "WIN32 w")
  case True
  then show ?thesis
    by (auto simp: GetOSRand_def CryptAcquireContextW_def CryptGenRandom_def RandFailure_def
        CryptReleaseContext_def LogPrintf_def reads_def log_event_def
        split: prod.splits if_splits)
next
  case False
  let ?f = "open_src w 0"
  let ?w1 = "snd (sys_open ''/dev/urandom'' w)"
  have r1: "reads ?w1 = reads w" by (simp add: sys_open_def reads_def log_event_def)
  show ?thesis
  proof (cases "?f = - 1")
    case True
    with False show ?thesis
      by (simp add: GetOSRand_def sys_open_def RandFailure_def LogPrintf_def reads_def log_event_def)
  next
    case f: False
    have "reads (final_world (GetOSRand_loop ?f ent 0 ?w1)) \<le> reads ?w1 + nat (32 - 0)"
      by (rule GetOSRand_loop_reads) simp_all
    then have le: "reads (final_world (GetOSRand_loop ?f ent 0 ?w1)) \<le> reads w + 32"
      by (simp add: r1)
    have "reads (final_world (GetOSRand ent w)) = reads (final_world (GetOSRand_loop ?f ent 0 ?w1))"
      using False f
      by (cases "GetOSRand_loop ?f ent 0 ?w1")
         (auto simp: GetOSRand_def sys_open_def sys_close_def Let_def split: prod.splits)
    with le show ?thesis by simp
  qed
qed

lemma partial_reads_run:
  "\<exists>w'. GetOSRand (replicate 40 0xAA) partial_reads_world
         = Inr (map of_nat [0..<20] @ map (\<lambda>i. of_nat (100 + i)) [0..<12] @ replicate 8 0xAA, w') \<and>
        trace w' = [Call_open ''/dev/urandom'', Call_read 3 32, Call_read 3 12, Call_close 3]"
  apply (simp add: GetOSRand_def partial_reads_world_def quiet_world_def sys_open_def
      log_event_def sys_close_def)
  apply (subst GetOSRand_loop_unfold)
  apply (simp add: chunk_def after_read_def log_event_def store_def)
  apply (subst GetOSRand_loop_unfold)
  apply (simp add: chunk_def after_read_def log_event_def store_def sys_close_def)
  done

lemma end_of_file_run:
  "\<exists>w'. GetOSRand (replicate 40 0xAA) end_of_file_world = Inl (abort, w')"
  apply (simp add: GetOSRand_def end_of_file_world_def quiet_world_def sys_open_def
      log_event_def sys_close_def)
  apply (subst GetOSRand_loop_unfold)
  apply (simp add: chunk_def after_read_def log_event_def store_def)
  apply (subst GetOSRand_loop_unfold)
  apply (simp add: chunk_def after_read_def log_event_def store_def RandFailure_def)
  done

lemma read_src_after_read: "read_src (after_read f c w) j = read_src w (Suc j)"
  by (simp add: after_read_def log_event_def)

lemma got_0: "got w 0 = 0"
  by (simp add: got_def)

lemma got_Suc_shift: "got w (Suc m) = fst (read_src w 0) + got (after_read f c w) m"
  unfolding got_def read_src_after_read by (rule sum.lessThan_Suc_shift)

lemma got_Suc: "got w (Suc m) = got w m + fst (read_src w m)"
  by (simp add: got_def)

lemma got_nonneg: "\<forall>j<m. 0 < fst (read_src w j) \<Longrightarrow> 0 \<le> got w m"
  unfolding got_def by (rule sum_nonneg) (simp add: less_imp_le)

lemma got_mono:
  assumes "\<forall>j<m. 0 < fst (read_src w j)" and "k \<le> m"
  shows "got w k \<le> got w m"
  using assms
proof (induction m)
  case 0
  then show ?case by simp
next
  case (Suc m)
  show ?case
  proof (cases "k = Suc m")
    case True
    then show ?thesis by simp
  next
    case False
    with Suc.prems have "k \<le> m" by simp
    moreover have "\<forall>j<m. 0 < fst (read_src w j)" using Suc.prems(1) by simp
    ultimately have "got w k \<le> got w m" by (rule Suc.IH[rotated])
    moreover have "0 < fst (read_src w m)" using Suc.prems(1) by simp
    ultimately show ?thesis by (simp add: got_Suc)
  qed
qed

lemma chunks_0: "chunks w 0 = []"
  by (simp add: chunks_def)

lemma chunks_Suc_shift: "chunks w (Suc m) = chunk w @ chunks (after_read f c w) m"
proof -
  have "[0..<Suc m] = 0 # map Suc [0..<m]"
    by (simp add: upt_conv_Cons map_Suc_upt del: upt_Suc)
  then show ?thesis
    by (simp add: chunks_def chunk_def read_src_after_read comp_def del: upt_Suc)
qed

lemma reads_done_0: "reads_done f have 0 w = w"
  by (simp add: reads_done_def)

lemma reads_done_Suc_shift:
  "reads_done f (have + fst (read_src w 0)) m (after_read f (nat (32 - have)) w)
   = reads_done f have (Suc m) w"
proof -
  let ?w1 = "after_read f (nat (32 - have)) w"
  have u: "[0..<Suc m] = 0 # map Suc [0..<m]"
    by (simp add: upt_conv_Cons map_Suc_upt del: upt_Suc)
  have g: "have + fst (read_src w 0) + got ?w1 j = have + got w (Suc j)" for j
    by (simp add: got_Suc_shift[of w j f "nat (32 - have)"])
  have tr: "trace ?w1 = trace w @ [Call_read f (nat (32 - have))]"
    by (simp add: after_read_def log_event_def)
  have "map (\<lambda>j. Call_read f (nat (32 - (have + got w j)))) [0..<Suc m]
        = Call_read f (nat (32 - have))
          # map (\<lambda>j. Call_read f (nat (32 - (have + fst (read_src w 0) + got ?w1 j)))) [0..<m]"
    unfolding u by (simp add: got_0 g comp_def)
  then show ?thesis
    unfolding reads_done_def
    by (simp add: tr read_src_after_read) (simp add: after_read_def log_event_def)
qed

lemma GetOSRand_loop_returns:
  assumes "\<forall>j<m. 0 < fst (read_src w j)" and "have + got w m = 32"
    and "0 \<le> have" and "have < 32" and "32 \<le> length ent"
  shows "GetOSRand_loop f ent have w
         = Inr ((take (nat have) ent @ chunks w m @ drop 32 ent, 32), reads_done f have m w)"
  using assms
proof (induction m arbitrary: ent "have" w)
  case 0
  then show ?case by (simp add: got_0)
next
  case (Suc m)
  let ?n = "fst (read_src w 0)"
  let ?w1 = "after_read f (nat (32 - have)) w"
  let ?ent1 = "store ent (nat have) (chunk w)"
  have pos: "0 < ?n" using Suc.prems(1) by simp
  have rest: "\<forall>j<m. 0 < fst (read_src ?w1 j)"
    using Suc.prems(1) by (simp add: read_src_after_read)
  have sum: "have + ?n + got ?w1 m = 32"
    using Suc.prems(2) by (simp add: got_Suc_shift[of w m f "nat (32 - have)"])
  have nn: "0 \<le> got ?w1 m" using rest by (rule got_nonneg)
  have le: "?n + have \<le> 32" using sum nn by simp
  have len: "length (chunk w) = nat ?n" by (rule length_chunk)
  have fit: "nat have + length (chunk w) \<le> 32"
    using le pos Suc.prems(3) by (simp add: len)
  have idx: "nat (have + ?n) = nat have + length (chunk w)"
    using pos Suc.prems(3) by (simp add: len nat_add_distrib)
  have tk: "take (nat (have + ?n)) ?ent1 = take (nat have) ent @ chunk w"
    using fit Suc.prems(5) by (simp add: idx take_store)
  have dr: "drop 32 ?ent1 = drop 32 ent"
    using fit Suc.prems(5) by (simp add: drop_store)
  have ln: "32 \<le> length ?ent1"
    using fit Suc.prems(5) by (simp add: length_store)
  show ?case
  proof (cases "have + ?n < 32")
    case True
    have "GetOSRand_loop f ent have w = GetOSRand_loop f ?ent1 (have + ?n) ?w1"
      using pos le True by (subst GetOSRand_loop_unfold) simp
    also have "\<dots> = Inr ((take (nat (have + ?n)) ?ent1 @ chunks ?w1 m @ drop 32 ?ent1, 32),
                           reads_done f (have + ?n) m ?w1)"
      using rest sum pos Suc.prems(3) True ln by (intro Suc.IH) simp_all
    finally show ?thesis
      by (simp add: tk dr chunks_Suc_shift[of w m f "nat (32 - have)"] reads_done_Suc_shift)
  next
    case False
    with le have full: "have + ?n = 32" by simp
    with sum have g0: "got ?w1 m = 0" by simp
    have m0: "m = 0"
    proof (rule ccontr)
      assume "m \<noteq> 0"
      then have "0 < m" by simp
      with rest have "0 < fst (read_src ?w1 0)" by simp
      moreover have "got ?w1 (Suc 0) \<le> got ?w1 m"
        using rest \<open>0 < m\<close> by (intro got_mono) simp_all
      ultimately show False using g0 by (simp add: got_Suc got_0)
    qed
    have s: "?ent1 = take (nat have) ent @ chunk w @ drop 32 ent"
      using tk dr ln full
      by (metis append.assoc append_take_drop_id nat_numeral)
    have "GetOSRand_loop f ent have w = Inr ((?ent1, have + ?n), ?w1)"
      using pos le False by (subst GetOSRand_loop_unfold) simp
    moreover have "reads_done f have (Suc 0) w = ?w1"
      using reads_done_Suc_shift[of f "have" w 0] by (simp add: reads_done_0)
    ultimately show ?thesis
      using full by (simp add: m0 s chunks_Suc_shift[of w 0 f "nat (32 - have)"] chunks_0)
  qed
qed

lemma GetOSRand_loop_Inr_only:
  assumes "GetOSRand_loop f ent have w = Inr ((e', h'), w')"
    and "0 \<le> have" and "have < 32"
  shows "\<exists>m. (\<forall>j<m. 0 < fst (read_src w j)) \<and> have + got w m = 32"
  using assms
proof (induction "nat (32 - have)" arbitrary: ent "have" w rule: less_induct)
  case less
  let ?n = "fst (read_src w 0)"
  let ?w1 = "after_read f (nat (32 - have)) w"
  have "\<not> (?n \<le> 0 \<or> ?n + have > 32)"
  proof
    assume "?n \<le> 0 \<or> ?n + have > 32"
    then have "GetOSRand_loop f ent have w = RandFailure ?w1"
      by (subst GetOSRand_loop_unfold) simp
    with less.prems(1) show False by (simp add: RandFailure_def)
  qed
  then have ok: "0 < ?n" "?n + have \<le> 32" by simp_all
  show ?case
  proof (cases "have + ?n < 32")
    case True
    from less.prems(1) True ok
    have rec: "GetOSRand_loop f (store ent (nat have) (chunk w)) (have + ?n) ?w1
               = Inr ((e', h'), w')"
      by (subst (asm) GetOSRand_loop_unfold) simp
    have "\<exists>m. (\<forall>j<m. 0 < fst (read_src ?w1 j)) \<and> have + ?n + got ?w1 m = 32"
    proof (rule less.hyps[OF _ rec])
      show "nat (32 - (have + ?n)) < nat (32 - have)" using ok True by simp
      show "0 \<le> have + ?n" using ok less.prems(2) by simp
      show "have + ?n < 32" by (rule True)
    qed
    then obtain m where m: "\<forall>j<m. 0 < fst (read_src ?w1 j)" "have + ?n + got ?w1 m = 32"
      by blast
    have "\<forall>j<Suc m. 0 < fst (read_src w j)"
      using m(1) ok(1) by (auto simp: read_src_after_read less_Suc_eq_0_disj)
    moreover have "have + got w (Suc m) = 32"
      using m(2) by (simp add: got_Suc_shift[of w m f "nat (32 - have)"])
    ultimately show ?thesis by blast
  next
    case False
    with ok have "have + ?n = 32" by simp
    then have "have + got w (Suc 0) = 32" by (simp add: got_Suc got_0)
    moreover have "\<forall>j<Suc 0. 0 < fst (read_src w j)" using ok(1) by simp
    ultimately show ?thesis by blast
  qed
qed

lemma GetOSRand_loop_Inr_iff:
  assumes "0 \<le> have" and "have < 32" and "32 \<le> length ent"
  shows "GetOSRand_loop f ent have w = Inr ((e', h'), w') \<longleftrightarrow>
         (\<exists>m. (\<forall>j<m. 0 < fst (read_src w j)) \<and> have + got w m = 32 \<and>
              e' = take (nat have) ent @ chunks w m @ drop 32 ent \<and> h' = 32 \<and>
              w' = reads_done f have m w)"
proof
  assume L: "GetOSRand_loop f ent have w = Inr ((e', h'), w')"
  from GetOSRand_loop_Inr_only[OF L assms(1,2)] obtain m where
    m: "\<forall>j<m. 0 < fst (read_src w j)" "have + got w m = 32" by blast
  from GetOSRand_loop_returns[OF m assms, of f] L
  have "e' = take (nat have) ent @ chunks w m @ drop 32 ent \<and> h' = 32 \<and>
        w' = reads_done f have m w" by simp
  with m show "\<exists>m. (\<forall>j<m. 0 < fst (read_src w j)) \<and> have + got w m = 32 \<and>
              e' = take (nat have) ent @ chunks w m @ drop 32 ent \<and> h' = 32 \<and>
              w' = reads_done f have m w" by blast
next
  assume "\<exists>m. (\<forall>j<m. 0 < fst (read_src w j)) \<and> have + got w m = 32 \<and>
              e' = take (nat have) ent @ chunks w m @ drop 32 ent \<and> h' = 32 \<and>
              w' = reads_done f have m w"
  then obtain m where m: "\<forall>j<m. 0 < fst (read_src w j)" "have + got w m = 32"
    and r: "e' = take (nat have) ent @ chunks w m @ drop 32 ent" "h' = 32"
      "w' = reads_done f have m w" by blast
  show "GetOSRand_loop f ent have w = Inr ((e', h'), w')"
    using GetOSRand_loop_returns[OF m assms, of f] r by simp
qed

lemma GetOSRand_loop_bad_read:
  assumes "\<forall>j<k. 0 < fst (read_src w j)" and "have + got w k < 32"
    and "fst (read_src w k) \<le> 0 \<or> 32 < have + got w (Suc k)"
    and "0 \<le> have"
  shows "\<exists>w'. GetOSRand_loop f ent have w = Inl (abort, w')"
  using assms
proof (induction k arbitrary: ent "have" w)
  case 0
  then show ?case
    by (subst GetOSRand_loop_unfold) (auto simp: RandFailure_def got_Suc got_0)
next
  case (Suc k)
  let ?n = "fst (read_src w 0)"
  let ?w1 = "after_read f (nat (32 - have)) w"
  have pos: "0 < ?n" using Suc.prems(1) by simp
  have rest: "\<forall>j<k. 0 < fst (read_src ?w1 j)"
    using Suc.prems(1) by (simp add: read_src_after_read)
  have nn: "0 \<le> got ?w1 k" using rest by (rule got_nonneg)
  have lt: "have + ?n + got ?w1 k < 32"
    using Suc.prems(2) by (simp add: got_Suc_shift[of w k f "nat (32 - have)"])
  then have part: "have + ?n < 32" using nn by simp
  have "GetOSRand_loop f ent have w
        = GetOSRand_loop f (store ent (nat have) (chunk w)) (have + ?n) ?w1"
    using pos part by (subst GetOSRand_loop_unfold) simp
  moreover have "\<exists>w'. GetOSRand_loop f (store ent (nat have) (chunk w)) (have + ?n) ?w1
                      = Inl (abort, w')"
  proof (rule Suc.IH[OF rest lt])
    show "fst (read_src ?w1 k) \<le> 0 \<or> 32 < have + ?n + got ?w1 (Suc k)"
      using Suc.prems(3)
      by (simp add: read_src_after_read got_Suc_shift[of w "Suc k" f "nat (32 - have)"]
          add.assoc)
    show "0 \<le> have + ?n" using pos Suc.prems(4) by simp
  qed
  ultimately show ?case by simp
qed

lemma got_sys_open: "got (snd (sys_open path w)) m = got w m"
  by (simp add: got_def sys_open_def log_event_def)

lemma chunks_sys_open: "chunks (snd (sys_open path w)) m = chunks w m"
  by (simp add: chunks_def sys_open_def log_event_def)

lemma read_src_sys_open: "read_src (snd (sys_open path w)) = read_src w"
  by (simp add: sys_open_def log_event_def)

lemma GetOSRand_posix:
  assumes "\<not> WIN32 w"
  shows "GetOSRand ent w =
     (if open_src w 0 = - 1 then RandFailure (snd (sys_open ''/dev/urandom'' w))
      else case GetOSRand_loop (open_src w 0) ent 0 (snd (sys_open ''/dev/urandom'' w)) of
             Inl e \<Rightarrow> Inl e
           | Inr ((ent32', have), w2) \<Rightarrow> Inr (ent32', sys_close (open_src w 0) w2))"
  using assms by (simp add: GetOSRand_def sys_open_def Let_def)

lemma GetOSRand_posix_iff:
  assumes "\<not> WIN32 w" and "32 \<le> length ent"
  shows "GetOSRand ent w = Inr (e', w') \<longleftrightarrow>
     open_src w 0 \<noteq> - 1 \<and>
     (\<exists>m. (\<forall>j<m. 0 < fst (read_src w j)) \<and> got w m = 32 \<and>
          e' = chunks w m @ drop 32 ent \<and>
          w' = sys_close (open_src w 0)
                 (reads_done (open_src w 0) 0 m (snd (sys_open ''/dev/urandom'' w))))"
proof -
  let ?f = "open_src w 0" and ?w1 = "snd (sys_open ''/dev/urandom'' w)"
  have loop: "GetOSRand_loop ?f ent 0 ?w1 = Inr ((e, h), w2) \<longleftrightarrow>
         (\<exists>m. (\<forall>j<m. 0 < fst (read_src w j)) \<and> got w m = 32 \<and>
              e = chunks w m @ drop 32 ent \<and> h = 32 \<and> w2 = reads_done ?f 0 m ?w1)" for e h w2
    using GetOSRand_loop_Inr_iff[of 0 ent ?f ?w1 e h w2] assms(2)
    by (simp add: got_sys_open chunks_sys_open read_src_sys_open)
  show ?thesis
  proof (cases "?f = - 1")
    case True
    then show ?thesis by (simp add: GetOSRand_posix[OF assms(1)] RandFailure_def)
  next
    case False
    show ?thesis
    proof
      assume L: "GetOSRand ent w = Inr (e', w')"
      then obtain h w2 where l: "GetOSRand_loop ?f ent 0 ?w1 = Inr ((e', h), w2)"
        and w': "w' = sys_close ?f w2"
        using False by (auto simp: GetOSRand_posix[OF assms(1)] split: sum.splits)
      from l[unfolded loop] w' False
      show "?f \<noteq> - 1 \<and>
        (\<exists>m. (\<forall>j<m. 0 < fst (read_src w j)) \<and> got w m = 32 \<and>
          e' = chunks w m @ drop 32 ent \<and> w' = sys_close ?f (reads_done ?f 0 m ?w1))"
        by blast
    next
      assume "?f \<noteq> - 1 \<and>
        (\<exists>m. (\<forall>j<m. 0 < fst (read_src w j)) \<and> got w m = 32 \<and>
          e' = chunks w m @ drop 32 ent \<and> w' = sys_close ?f (reads_done ?f 0 m ?w1))"
      then obtain m where m: "\<forall>j<m. 0 < fst (read_src w j)" "got w m = 32"
        "e' = chunks w m @ drop 32 ent" "w' = sys_close ?f (reads_done ?f 0 m ?w1)"
        by blast
      then have "GetOSRand_loop ?f ent 0 ?w1 = Inr ((e', 32), reads_done ?f 0 m ?w1)"
        unfolding loop by blast
      then show "GetOSRand ent w = Inr (e', w')"
        using False m(4) by (simp add: GetOSRand_posix[OF assms(1)])
    qed
  qed
qed

lemma GetOSRand_win32_iff:
  assumes "WIN32 w" and "32 \<le> length ent"
  shows "GetOSRand ent w = Inr (e', w') \<longleftrightarrow>
     CryptAcquireContextW_src w 0 \<noteq> 0 \<and> fst (CryptGenRandom_src w 0) \<noteq> 0 \<and>
     e' = map (snd (CryptGenRandom_src w 0)) [0..<32] @ drop 32 ent \<and>
     w' = CryptReleaseContext (snd (CryptGenRandom 32 ent (snd (CryptAcquireContextW w))))"
  using assms
  by (auto simp: GetOSRand_def CryptAcquireContextW_def CryptGenRandom_def RandFailure_def
      log_event_def store_0 split: prod.splits)

lemma GetOSRand_bad_read:
  assumes "\<not> WIN32 w" and "open_src w 0 \<noteq> - 1"
    and "\<forall>j<k. 0 < fst (read_src w j)" and "got w k < 32"
    and "fst (read_src w k) \<le> 0 \<or> 32 < got w (Suc k)"
  shows "\<exists>w'. GetOSRand ent w = Inl (abort, w')"
proof -
  let ?f = "open_src w 0" and ?w1 = "snd (sys_open ''/dev/urandom'' w)"
  have "\<exists>w'. GetOSRand_loop ?f ent 0 ?w1 = Inl (abort, w')"
    using assms(3-5)
    by (intro GetOSRand_loop_bad_read[of k])
       (simp_all add: got_sys_open read_src_sys_open)
  then show ?thesis
    using assms(2) by (auto simp: GetOSRand_posix[OF assms(1)])
qed

lemma GetOSRand_no_random:
  assumes "WIN32 w" and "CryptAcquireContextW_src w 0 = 0 \<or> fst (CryptGenRandom_src w 0) = 0"
  shows "\<exists>w'. GetOSRand ent w = Inl (abort, w')"
  using assms
  by (auto simp: GetOSRand_def CryptAcquireContextW_def CryptGenRandom_def RandFailure_def
      log_event_def split: prod.splits)

lemma length_chunks:
  assumes "\<forall>j<m. 0 < fst (read_src w j)"
  shows "length (chunks w m) = nat (got w m)"
  using assms
proof (induction m)
  case 0
  then show ?case by (simp add: chunks_0 got_0)
next
  case (Suc m)
  have all: "\<forall>j<m. 0 < fst (read_src w j)" using Suc.prems by simp
  have pos: "0 < fst (read_src w m)" using Suc.prems by simp
  have nn: "0 \<le> got w m" using all by (rule got_nonneg)
  have "chunks w (Suc m) = chunks w m @ map (snd (read_src w m)) [0..<nat (fst (read_src w m))]"
    by (simp add: chunks_def)
  then have "length (chunks w (Suc m)) = nat (got w m) + nat (fst (read_src w m))"
    using Suc.IH[OF all] by simp
  also have "\<dots> = nat (got w (Suc m))"
    using nn pos by (simp add: got_Suc nat_add_distrib)
  finally show ?case .
qed

text \<open>
  Claim C4. \<open>GetOSRand\<close> either ends in the abort of \<open>RandFailure\<close> (the diagnostic is
  the last thing it does) or returns with the first 32 bytes of the buffer overwritten
  by what the operating system delivered, and it returns only when every call it made
  succeeded.

  Without \<open>WIN32\<close> it returns exactly when \<open>/dev/urandom\<close> opens and some number \<open>m\<close> of
  calls of \<open>read\<close> all return a positive count, the counts adding up to 32; the 32 bytes
  it leaves are then the bytes of these \<open>m\<close> reads, in the order read, and the world it
  leaves is the one after \<open>open\<close>, these reads and \<open>close\<close>. On \<open>WIN32\<close> it returns exactly
  when \<open>CryptAcquireContextW\<close> and \<open>CryptGenRandom\<close> both return non-zero, and the 32
  bytes are those \<open>CryptGenRandom\<close> delivered. In both cases the bytes beyond the 32 are
  untouched, and the 32 bytes are the same whatever the buffer held before, so none of
  them is left over.

  It aborts when the source cannot be opened, when the provider cannot be acquired,
  when \<open>CryptGenRandom\<close> fails, and in the first iteration of the loop (whichever it is)
  whose \<open>read\<close> returns zero or less, or more than fits in the 32 bytes. A count is an
  integer here; the statements on what \<open>read\<close> may return are made for the counts for
  which the sum \<open>n + have\<close> stays in the range of a signed 64-bit \<open>ssize_t\<close>. A \<open>read\<close> that
  returns a positive count short of the target starts the next iteration with a larger
  \<open>have\<close>, and a run makes at most 32 calls of \<open>read\<close>.
\<close>

theorem GetOSRand_fills_or_aborts:
  assumes "32 \<le> length ent32"
  shows
  "(\<forall>s w'. GetOSRand ent32 w = Inl (s, w') \<longrightarrow>
      s = abort \<and> (\<exists>evs. trace w' = trace w @ evs @ [Call_LogPrintf RandFailure_msg []])) \<and>
   (\<forall>e' w'. GetOSRand ent32 w = Inr (e', w') \<longrightarrow>
      (\<exists>B. length B = 32 \<and> e' = B @ drop 32 ent32 \<and>
           (\<forall>x. 32 \<le> length x \<longrightarrow> GetOSRand x w = Inr (B @ drop 32 x, w')))) \<and>
   (\<not> WIN32 w \<and>
    (\<forall>j. - (2 ^ 63) \<le> fst (read_src w j) \<and> fst (read_src w j) + 31 < 2 ^ 63) \<longrightarrow>
      (GetOSRand ent32 w = Inr (e', w') \<longleftrightarrow>
         open_src w 0 \<noteq> - 1 \<and>
         (\<exists>m. (\<forall>j<m. 0 < fst (read_src w j)) \<and> got w m = 32 \<and>
              length (chunks w m) = 32 \<and> e' = chunks w m @ drop 32 ent32 \<and>
              w' = sys_close (open_src w 0)
                     (reads_done (open_src w 0) 0 m (snd (sys_open ''/dev/urandom'' w)))))) \<and>
   (WIN32 w \<longrightarrow>
      (GetOSRand ent32 w = Inr (e', w') \<longleftrightarrow>
         CryptAcquireContextW_src w 0 \<noteq> 0 \<and> fst (CryptGenRandom_src w 0) \<noteq> 0 \<and>
         e' = map (snd (CryptGenRandom_src w 0)) [0..<32] @ drop 32 ent32 \<and>
         w' = CryptReleaseContext
                (snd (CryptGenRandom 32 ent32 (snd (CryptAcquireContextW w)))))) \<and>
   (\<not> WIN32 w \<and> open_src w 0 = - 1 \<longrightarrow> (\<exists>w'. GetOSRand ent32 w = Inl (abort, w'))) \<and>
   (WIN32 w \<and> (CryptAcquireContextW_src w 0 = 0 \<or> fst (CryptGenRandom_src w 0) = 0) \<longrightarrow>
      (\<exists>w'. GetOSRand ent32 w = Inl (abort, w'))) \<and>
   (\<not> WIN32 w \<and> open_src w 0 \<noteq> - 1 \<and> (\<forall>j<k. 0 < fst (read_src w j)) \<and> got w k < 32 \<and>
    (fst (read_src w k) \<le> 0 \<or> 32 < got w (Suc k)) \<and>
    - (2 ^ 63) \<le> fst (read_src w k) \<and> got w (Suc k) < 2 ^ 63 \<longrightarrow>
      (\<exists>w'. GetOSRand ent32 w = Inl (abort, w'))) \<and>
   (0 \<le> have \<and> have < 32 \<and>
    - (2 ^ 63) \<le> fst (read_src v 0) \<and> fst (read_src v 0) + have < 2 ^ 63 \<and>
    (fst (read_src v 0) \<le> 0 \<or> 32 < fst (read_src v 0) + have) \<longrightarrow>
      (\<exists>w'. GetOSRand_loop f ent32 have v = Inl (abort, w'))) \<and>
   (0 < fst (read_src v 0) \<and> fst (read_src v 0) + have < 32 \<longrightarrow>
      GetOSRand_loop f ent32 have v
        = GetOSRand_loop f (store ent32 (nat have) (chunk v)) (have + fst (read_src v 0))
            (after_read f (nat (32 - have)) v)) \<and>
   reads (final_world (GetOSRand ent32 w)) \<le> reads w + 32"
proof (intro conjI allI impI)
  fix s w' assume "GetOSRand ent32 w = Inl (s, w')"
  from GetOSRand_Inl_abort[OF this]
  show "s = abort" "\<exists>evs. trace w' = trace w @ evs @ [Call_LogPrintf RandFailure_msg []]"
    by simp_all
next
  fix e' w' assume r: "GetOSRand ent32 w = Inr (e', w')"
  from GetOSRand_Inr_fill[OF r assms] obtain B where B: "length B = 32"
    "\<forall>x. 32 \<le> length x \<longrightarrow> GetOSRand x w = Inr (B @ drop 32 x, w')" by blast
  from B(2) assms r have "e' = B @ drop 32 ent32" by auto
  with B show "\<exists>B. length B = 32 \<and> e' = B @ drop 32 ent32 \<and>
           (\<forall>x. 32 \<le> length x \<longrightarrow> GetOSRand x w = Inr (B @ drop 32 x, w'))" by blast
next
  assume "\<not> WIN32 w \<and>
    (\<forall>j. - (2 ^ 63) \<le> fst (read_src w j) \<and> fst (read_src w j) + 31 < 2 ^ 63)"
  then have posix: "\<not> WIN32 w" by simp
  have len: "length (chunks w m) = 32"
    if "\<forall>j<m. 0 < fst (read_src w j)" and "got w m = 32" for m
    using length_chunks[OF that(1)] that(2) by simp
  have "GetOSRand ent32 w = Inr (e', w') \<longleftrightarrow>
         open_src w 0 \<noteq> - 1 \<and>
         (\<exists>m. (\<forall>j<m. 0 < fst (read_src w j)) \<and> got w m = 32 \<and>
              e' = chunks w m @ drop 32 ent32 \<and>
              w' = sys_close (open_src w 0)
                     (reads_done (open_src w 0) 0 m (snd (sys_open ''/dev/urandom'' w))))"
    using posix assms by (rule GetOSRand_posix_iff)
  also have "\<dots> \<longleftrightarrow>
         open_src w 0 \<noteq> - 1 \<and>
         (\<exists>m. (\<forall>j<m. 0 < fst (read_src w j)) \<and> got w m = 32 \<and>
              length (chunks w m) = 32 \<and> e' = chunks w m @ drop 32 ent32 \<and>
              w' = sys_close (open_src w 0)
                     (reads_done (open_src w 0) 0 m (snd (sys_open ''/dev/urandom'' w))))"
    using len by blast
  finally show "GetOSRand ent32 w = Inr (e', w') \<longleftrightarrow>
         open_src w 0 \<noteq> - 1 \<and>
         (\<exists>m. (\<forall>j<m. 0 < fst (read_src w j)) \<and> got w m = 32 \<and>
              length (chunks w m) = 32 \<and> e' = chunks w m @ drop 32 ent32 \<and>
              w' = sys_close (open_src w 0)
                     (reads_done (open_src w 0) 0 m (snd (sys_open ''/dev/urandom'' w))))" .
next
  assume "WIN32 w"
  then show "GetOSRand ent32 w = Inr (e', w') \<longleftrightarrow>
         CryptAcquireContextW_src w 0 \<noteq> 0 \<and> fst (CryptGenRandom_src w 0) \<noteq> 0 \<and>
         e' = map (snd (CryptGenRandom_src w 0)) [0..<32] @ drop 32 ent32 \<and>
         w' = CryptReleaseContext
                (snd (CryptGenRandom 32 ent32 (snd (CryptAcquireContextW w))))"
    using assms by (rule GetOSRand_win32_iff)
next
  assume "\<not> WIN32 w \<and> open_src w 0 = - 1"
  then show "\<exists>w'. GetOSRand ent32 w = Inl (abort, w')"
    by (simp add: GetOSRand_def sys_open_def RandFailure_def)
next
  assume "WIN32 w \<and> (CryptAcquireContextW_src w 0 = 0 \<or> fst (CryptGenRandom_src w 0) = 0)"
  then show "\<exists>w'. GetOSRand ent32 w = Inl (abort, w')"
    by (intro GetOSRand_no_random) simp_all
next
  assume "\<not> WIN32 w \<and> open_src w 0 \<noteq> - 1 \<and> (\<forall>j<k. 0 < fst (read_src w j)) \<and> got w k < 32 \<and>
    (fst (read_src w k) \<le> 0 \<or> 32 < got w (Suc k)) \<and>
    - (2 ^ 63) \<le> fst (read_src w k) \<and> got w (Suc k) < 2 ^ 63"
  then show "\<exists>w'. GetOSRand ent32 w = Inl (abort, w')"
    by (intro GetOSRand_bad_read[of w k]) simp_all
next
  assume "0 \<le> have \<and> have < 32 \<and>
    - (2 ^ 63) \<le> fst (read_src v 0) \<and> fst (read_src v 0) + have < 2 ^ 63 \<and>
    (fst (read_src v 0) \<le> 0 \<or> 32 < fst (read_src v 0) + have)"
  then have "fst (read_src v 0) \<le> 0 \<or> 32 < fst (read_src v 0) + have" by simp
  then show "\<exists>w'. GetOSRand_loop f ent32 have v = Inl (abort, w')"
    by (subst GetOSRand_loop_unfold) (simp add: RandFailure_def)
next
  assume "0 < fst (read_src v 0) \<and> fst (read_src v 0) + have < 32"
  then show "GetOSRand_loop f ent32 have v
        = GetOSRand_loop f (store ent32 (nat have) (chunk v)) (have + fst (read_src v 0))
            (after_read f (nat (32 - have)) v)"
    by (subst GetOSRand_loop_unfold) (simp add: add.commute)
next
  show "reads (final_world (GetOSRand ent32 w)) \<le> reads w + 32" by (rule GetOSRand_reads)
qed

theorem GetOSRand_fills_or_aborts_witness:
  "(\<exists>w'. GetOSRand (replicate 40 0xAA) partial_reads_world
          = Inr (map of_nat [0..<20] @ map (\<lambda>i. of_nat (100 + i)) [0..<12] @ replicate 8 0xAA, w') \<and>
         trace w' = [Call_open ''/dev/urandom'', Call_read 3 32, Call_read 3 12, Call_close 3]) \<and>
   (\<exists>w'. GetOSRand (replicate 32 0) partial_reads_world
          = Inr (map of_nat [0..<20] @ map (\<lambda>i. of_nat (100 + i)) [0..<12], w')) \<and>
   (\<exists>w'. GetOSRand (replicate 40 0xAA) win32_world
          = Inr (map of_nat [0..<32] @ replicate 8 0xAA, w')) \<and>
   (\<exists>w'. GetOSRand (replicate 40 0xAA) win32_no_random_world = Inl (abort, w')) \<and>
   (\<exists>w'. GetOSRand (replicate 32 0) no_urandom_world = Inl (abort, w')) \<and>
   (\<exists>w' evs. GetOSRand (replicate 40 0xAA) end_of_file_world = Inl (abort, w') \<and>
             trace w' = evs @ [Call_LogPrintf RandFailure_msg []]) \<and>
   (\<exists>w'. GetOSRand_loop 3 (replicate 40 0xAA) 20 quiet_world = Inl (abort, w')) \<and>
   reads (final_world (GetOSRand (replicate 40 0xAA) partial_reads_world)) \<le> 32"
proof -
  let ?B0 = "map of_nat [0..<20] @ map (\<lambda>i. of_nat (100 + i)) [0..<12] :: u8 list"
  let ?ent = "replicate 40 (0xAA :: u8)"
  have len40: "32 \<le> length ?ent" by simp
  have len32: "32 \<le> length (replicate 32 (0 :: u8))" by simp
  note T = GetOSRand_fills_or_aborts[OF len40]
  \<comment> \<open>two partial reads\<close>
  have posix: "\<not> WIN32 partial_reads_world \<and>
      (\<forall>j. - (2 ^ 63) \<le> fst (read_src partial_reads_world j) \<and>
           fst (read_src partial_reads_world j) + 31 < 2 ^ 63)"
    by (simp add: partial_reads_world_def quiet_world_def)
  have op: "open_src partial_reads_world 0 \<noteq> - 1"
    by (simp add: partial_reads_world_def quiet_world_def)
  have pr: "\<forall>j<Suc (Suc 0). 0 < fst (read_src partial_reads_world j)"
    by (simp add: partial_reads_world_def)
  have g2: "got partial_reads_world (Suc (Suc 0)) = 32"
    by (simp add: got_def partial_reads_world_def)
  have c2: "chunks partial_reads_world (Suc (Suc 0)) = ?B0"
    by (simp add: chunks_def partial_reads_world_def)
  let ?w' = "sys_close (open_src partial_reads_world 0)
               (reads_done (open_src partial_reads_world 0) 0 (Suc (Suc 0))
                  (snd (sys_open ''/dev/urandom'' partial_reads_world)))"
  have tr: "trace ?w'
      = [Call_open ''/dev/urandom'', Call_read 3 32, Call_read 3 12, Call_close 3]"
    by (simp add: sys_close_def reads_done_def sys_open_def log_event_def got_def
        partial_reads_world_def quiet_world_def)
  have "open_src partial_reads_world 0 \<noteq> - 1 \<and>
        (\<exists>m. (\<forall>j<m. 0 < fst (read_src partial_reads_world j)) \<and> got partial_reads_world m = 32 \<and>
             length (chunks partial_reads_world m) = 32 \<and>
             ?B0 @ drop 32 ?ent = chunks partial_reads_world m @ drop 32 ?ent \<and>
             ?w' = sys_close (open_src partial_reads_world 0)
                     (reads_done (open_src partial_reads_world 0) 0 m
                        (snd (sys_open ''/dev/urandom'' partial_reads_world))))"
    using op pr g2 c2 by (intro conjI exI[of _ "Suc (Suc 0)"]) simp_all
  with T[where w = partial_reads_world and e' = "?B0 @ drop 32 ?ent" and w' = ?w',
      THEN conjunct2, THEN conjunct2, THEN conjunct1, rule_format, OF posix]
  have r: "GetOSRand ?ent partial_reads_world = Inr (?B0 @ drop 32 ?ent, ?w')" by blast
  from T[where w = partial_reads_world, THEN conjunct2, THEN conjunct1, rule_format, OF r]
  obtain B where
    B: "length B = 32" "?B0 @ drop 32 ?ent = B @ drop 32 ?ent"
    "\<forall>x. 32 \<le> length x \<longrightarrow> GetOSRand x partial_reads_world = Inr (B @ drop 32 x, ?w')"
    by blast
  from B(2) have "B = ?B0" by simp
  with B(3) len32 have a: "GetOSRand (replicate 32 0) partial_reads_world = Inr (?B0, ?w')"
    by simp
  have r': "GetOSRand ?ent partial_reads_world
      = Inr (map of_nat [0..<20] @ map (\<lambda>i. of_nat (100 + i)) [0..<12] @ replicate 8 0xAA, ?w')"
    using r by simp
  \<comment> \<open>the Windows provider\<close>
  have win: "WIN32 win32_world" "CryptAcquireContextW_src win32_world 0 \<noteq> 0"
    "fst (CryptGenRandom_src win32_world 0) \<noteq> 0"
    "map (snd (CryptGenRandom_src win32_world 0)) [0..<32] = map of_nat [0..<32]"
    by (simp_all add: win32_world_def quiet_world_def)
  let ?v' = "CryptReleaseContext
               (snd (CryptGenRandom 32 ?ent (snd (CryptAcquireContextW win32_world))))"
  from T[where w = win32_world and e' = "map of_nat [0..<32] @ drop 32 ?ent" and w' = ?v',
      THEN conjunct2, THEN conjunct2, THEN conjunct2, THEN conjunct1, rule_format, OF win(1)]
    win(2-4)
  have w1: "GetOSRand ?ent win32_world = Inr (map of_nat [0..<32] @ drop 32 ?ent, ?v')"
    by simp
  then have w1': "GetOSRand ?ent win32_world = Inr (map of_nat [0..<32] @ replicate 8 0xAA, ?v')"
    by simp
  have "WIN32 win32_no_random_world \<and>
        (CryptAcquireContextW_src win32_no_random_world 0 = 0 \<or>
         fst (CryptGenRandom_src win32_no_random_world 0) = 0)"
    by (simp add: win32_no_random_world_def quiet_world_def)
  with T[where w = win32_no_random_world, THEN conjunct2, THEN conjunct2, THEN conjunct2,
      THEN conjunct2, THEN conjunct2, THEN conjunct1]
  have w2: "\<exists>w'. GetOSRand ?ent win32_no_random_world = Inl (abort, w')" by blast
  \<comment> \<open>no source\<close>
  have "\<not> WIN32 no_urandom_world \<and> open_src no_urandom_world 0 = - 1"
    by (simp add: no_urandom_world_def quiet_world_def)
  with GetOSRand_fills_or_aborts[OF len32, where w = no_urandom_world, THEN conjunct2,
      THEN conjunct2, THEN conjunct2, THEN conjunct2, THEN conjunct1]
  have b: "\<exists>w'. GetOSRand (replicate 32 0) no_urandom_world = Inl (abort, w')"
    by blast
  \<comment> \<open>a read that returns 0 after a partial read\<close>
  have "\<not> WIN32 end_of_file_world \<and> open_src end_of_file_world 0 \<noteq> - 1 \<and>
        (\<forall>j<Suc 0. 0 < fst (read_src end_of_file_world j)) \<and> got end_of_file_world (Suc 0) < 32 \<and>
        (fst (read_src end_of_file_world (Suc 0)) \<le> 0 \<or> 32 < got end_of_file_world (Suc (Suc 0))) \<and>
        - (2 ^ 63) \<le> fst (read_src end_of_file_world (Suc 0)) \<and>
        got end_of_file_world (Suc (Suc 0)) < 2 ^ 63"
    by (simp add: end_of_file_world_def quiet_world_def got_def)
  with T[where w = end_of_file_world and k = "Suc 0", THEN conjunct2, THEN conjunct2,
      THEN conjunct2, THEN conjunct2, THEN conjunct2, THEN conjunct2, THEN conjunct1]
  obtain v where e: "GetOSRand ?ent end_of_file_world = Inl (abort, v)" by blast
  have tr0: "trace end_of_file_world = []"
    by (simp add: end_of_file_world_def quiet_world_def)
  from T[where w = end_of_file_world, THEN conjunct1, rule_format, OF e]
  have c: "\<exists>evs. trace v = evs @ [Call_LogPrintf RandFailure_msg []]"
    by (simp add: tr0)
  \<comment> \<open>a read that returns more than is missing\<close>
  have q: "0 \<le> (20 :: int) \<and> (20 :: int) < 32 \<and>
        - (2 ^ 63) \<le> fst (read_src quiet_world 0) \<and> fst (read_src quiet_world 0) + 20 < 2 ^ 63 \<and>
        (fst (read_src quiet_world 0) \<le> 0 \<or> 32 < fst (read_src quiet_world 0) + 20)"
    by (simp add: quiet_world_def)
  from T[THEN conjunct2, THEN conjunct2, THEN conjunct2, THEN conjunct2, THEN conjunct2,
      THEN conjunct2, THEN conjunct2, THEN conjunct1, rule_format, OF q]
  have o: "\<exists>w'. GetOSRand_loop 3 ?ent 20 quiet_world = Inl (abort, w')" .
  have r0: "reads partial_reads_world = 0"
    by (simp add: reads_def partial_reads_world_def quiet_world_def)
  from T[where w = partial_reads_world]
  have d: "reads (final_world (GetOSRand ?ent partial_reads_world)) \<le> 32"
    by (simp add: r0)
  show ?thesis using r' tr a w1' w2 b c d e o by blast
qed

section \<open>The seed feed\<close>

lemma continues_refl: "continues w w"
  by (simp add: continues_def)

lemma continues_trans [trans]: "continues w w' \<Longrightarrow> continues w' w'' \<Longrightarrow> continues w w''"
  by (auto simp: continues_def)

lemma continues_log_event: "continues w (log_event e w)"
  by (simp add: continues_def log_event_def)

lemma continues_after_query: "continues w (after_query n w)"
  by (simp add: continues_def after_query_def log_event_def)

lemma RegQueryValueExA_eq:
  "RegQueryValueExA lpData cbData w =
     ((fst (RegQueryValueExA_src w 0),
       (if fst (RegQueryValueExA_src w 0) = ERROR_SUCCESS
        then take (length lpData)
               (store lpData 0 (map (snd (snd (RegQueryValueExA_src w 0)))
                                  [0..<fst (snd (RegQueryValueExA_src w 0))]))
        else lpData),
       fst (snd (RegQueryValueExA_src w 0))),
      after_query cbData w)"
  by (simp add: RegQueryValueExA_def after_query_def split: prod.splits)

lemma RandAddSeedPerfmon_loop_unfold:
  "RandAddSeedPerfmon_loop vData w =
     (if fst (RegQueryValueExA_src w 0) = ERROR_MORE_DATA \<and> length vData < nMaxSize
      then RandAddSeedPerfmon_loop (resize vData (max ((length vData * 3) div 2) nMaxSize))
             (after_query (length vData) w)
      else (case fst (RegQueryValueExA vData (length vData) w) of
              (ret, vData', nSize') \<Rightarrow> ((ret, nSize', vData'), after_query (length vData) w)))"
  by (subst RandAddSeedPerfmon_loop.simps)
     (auto simp: RegQueryValueExA_eq Let_def ERROR_SUCCESS_def ERROR_MORE_DATA_def)

lemma length_resize: "length (resize v n) = n"
  by (simp add: resize_def)

lemma RandAddSeedPerfmon_loop_continues:
  "continues w (snd (RandAddSeedPerfmon_loop vData w))"
proof (induction "nMaxSize - length vData" arbitrary: vData w rule: less_induct)
  case less
  show ?case
  proof (cases "fst (RegQueryValueExA_src w 0) = ERROR_MORE_DATA \<and> length vData < nMaxSize")
    case True
    let ?v = "resize vData (max ((length vData * 3) div 2) nMaxSize)"
    have "continues (after_query (length vData) w)
            (snd (RandAddSeedPerfmon_loop ?v (after_query (length vData) w)))"
      using True by (intro less.hyps) (simp add: length_resize)
    then have "continues w (snd (RandAddSeedPerfmon_loop ?v (after_query (length vData) w)))"
      by (rule continues_trans[OF continues_after_query])
    then show ?thesis
      using True by (subst RandAddSeedPerfmon_loop_unfold) simp
  next
    case False
    then show ?thesis
      by (subst RandAddSeedPerfmon_loop_unfold)
         (auto simp: continues_after_query split: prod.splits)
  qed
qed

lemma RandAddSeed_world:
  "snd (RandAddSeed w) =
     log_event (Call_RAND_add (le_bytes 8 (fst (GetPerformanceCounter w))) (3 / 2))
       (snd (GetPerformanceCounter w))"
  by (simp add: RandAddSeed_def RAND_add_def Let_def length_le_bytes split: prod.splits)

lemma GetPerformanceCounter_world:
  "RAND_bytes_src (snd (GetPerformanceCounter w)) = RAND_bytes_src w \<and>
   WIN32 (snd (GetPerformanceCounter w)) = WIN32 w \<and>
   uninitialised (snd (GetPerformanceCounter w)) = uninitialised w \<and>
   trace (snd (GetPerformanceCounter w))
     = trace w @ [if WIN32 w then Call_QueryPerformanceCounter else Call_gettimeofday]"
  by (simp add: GetPerformanceCounter_def QueryPerformanceCounter_def gettimeofday_def
      log_event_def split: prod.splits)

lemma RandAddSeed_trace:
  "trace (snd (RandAddSeed w))
     = trace w @ [if WIN32 w then Call_QueryPerformanceCounter else Call_gettimeofday,
                  Call_RAND_add (le_bytes 8 (fst (GetPerformanceCounter w))) (3 / 2)]"
  by (simp add: RandAddSeed_world log_event_def GetPerformanceCounter_world)

lemma RandAddSeed_continues: "continues w (snd (RandAddSeed w))"
  by (simp add: continues_def RandAddSeed_world log_event_def GetPerformanceCounter_world)

lemma RandAddSeedPerfmon_continues:
  "continues (snd (RandAddSeed w)) (RandAddSeedPerfmon w)"
proof -
  let ?w1 = "snd (RandAddSeed w)"
  have GT: "continues v (snd (GetTime v))" for v
    by (simp add: continues_def GetTime_def log_event_def)
  have upd: "continues v (v\<lparr>nLastPerfmon := t\<rparr>)" for v t
    by (simp add: continues_def)
  have wrn: "continues v (v\<lparr>warned := True\<rparr>)" for v
    by (simp add: continues_def)
  show ?thesis
  proof (cases "WIN32 ?w1")
    case False
    then show ?thesis by (simp add: RandAddSeedPerfmon_def Let_def continues_refl)
  next
    case True
    let ?w2 = "snd (GetTime ?w1)"
    show ?thesis
    proof (cases "fst (GetTime ?w1) < nLastPerfmon ?w2 + 10 * 60")
      case True
      with \<open>WIN32 ?w1\<close> show ?thesis
        by (simp add: RandAddSeedPerfmon_def Let_def case_prod_beta GT)
    next
      case False
      let ?w3 = "snd (GetTime ?w2)"
      let ?w4 = "?w3\<lparr>nLastPerfmon := fst (GetTime ?w2)\<rparr>"
      let ?L = "RandAddSeedPerfmon_loop (replicate 250000 0) ?w4"
      let ?w5 = "snd ?L"
      let ?w6 = "RegCloseKey ?w5"
      have "continues ?w1 ?w2" by (rule GT)
      also have "continues ?w2 ?w3" by (rule GT)
      also have "continues ?w3 ?w4" by (rule upd)
      also have "continues ?w4 ?w5" by (rule RandAddSeedPerfmon_loop_continues)
      also have "continues ?w5 ?w6" unfolding RegCloseKey_def by (rule continues_log_event)
      finally have c6: "continues ?w1 ?w6" .
      let ?ret = "fst (fst ?L)" and ?nSize = "fst (snd (fst ?L))" and ?vData = "snd (snd (fst ?L))"
      have eq: "RandAddSeedPerfmon w =
                (if ?ret = ERROR_SUCCESS
                 then LogPrint ''rand'' perfmon_bytes_fmt [int ?nSize]
                        (RAND_add ?vData ?nSize (of_nat ?nSize / 100) ?w6)
                 else if \<not> warned ?w6
                   then (LogPrintf perfmon_warning_fmt [?ret] ?w6)\<lparr>warned := True\<rparr>
                   else ?w6)"
        using \<open>WIN32 ?w1\<close> False
        by (simp add: RandAddSeedPerfmon_def Let_def case_prod_beta)
      have fin: "continues ?w6 (RandAddSeedPerfmon w)"
      proof (cases "?ret = ERROR_SUCCESS")
        case True
        have "continues ?w6 (LogPrint ''rand'' perfmon_bytes_fmt [int ?nSize]
                (RAND_add ?vData ?nSize (of_nat ?nSize / 100) ?w6))"
          unfolding LogPrint_def RAND_add_def
          by (rule continues_trans[OF continues_log_event continues_log_event])
        with True show ?thesis unfolding eq by simp
      next
        case ret: False
        show ?thesis
        proof (cases "warned ?w6")
          case True
          with ret show ?thesis unfolding eq by (simp add: continues_refl)
        next
          case False
          have "continues ?w6 ((LogPrintf perfmon_warning_fmt [?ret] ?w6)\<lparr>warned := True\<rparr>)"
            unfolding LogPrintf_def
            by (rule continues_trans[OF continues_log_event wrn])
          with ret False show ?thesis unfolding eq by simp
        qed
      qed
      show ?thesis by (rule continues_trans[OF c6 fin])
    qed
  qed
qed

section \<open>\<open>GetStrongRandBytes\<close>\<close>

lemma GetRandBytes_Inr:
  assumes "GetRandBytes buf num w = Inr (buf', w')"
  shows "buf' = store buf 0 (draw num w 0)" and "w' = RAND_bytes_calls (Suc 0) num w"
    and "fst (RAND_bytes_src w 0) = 1"
  using assms by (auto simp: GetRandBytes_eq RandFailure_def split: if_splits)

lemma GetOSRand_Inr_shape:
  assumes "GetOSRand ent w = Inr (e', w')" and "32 \<le> length ent"
  shows "length e' = length ent" and "drop 32 e' = drop 32 ent"
proof -
  from GetOSRand_Inr_fill[OF assms] obtain B where B: "length B = 32"
    "\<forall>x. 32 \<le> length x \<longrightarrow> GetOSRand x w = Inr (B @ drop 32 x, w')" by blast
  with assms have e: "e' = B @ drop 32 ent" by auto
  show "length e' = length ent" using B(1) assms(2) by (simp add: e)
  show "drop 32 e' = drop 32 ent" using B(1) by (simp add: e)
qed

lemma GetStrongRandBytes_eq:
  assumes sha: "\<forall>x. length (sha512 x) = 64"
    and num: "0 \<le> num" "num \<le> 32" "nat num \<le> length out"
  shows "GetStrongRandBytes sha512 out num w =
     (case GetRandBytes (map (uninitialised w) [0..<64]) 32 (RandAddSeedPerfmon w) of
        Inl e \<Rightarrow> Inl e
      | Inr (bufA, w2) \<Rightarrow>
          (case GetOSRand bufA w2 of
             Inl e \<Rightarrow> Inl e
           | Inr (bufB, w3) \<Rightarrow>
               Inr ((take (nat num) (sha512 (take 32 bufA @ take 32 bufB)) @ drop (nat num) out,
                     replicate 64 0), w3)))"
proof (cases "GetRandBytes (map (uninitialised w) [0..<64]) 32 (RandAddSeedPerfmon w)")
  case (Inl e)
  then show ?thesis using num by (simp add: GetStrongRandBytes_def)
next
  case (Inr p)
  obtain bufA w2 where p: "p = (bufA, w2)" by (cases p)
  have lenA: "length bufA = 64"
    using GetRandBytes_Inr(1)[OF Inr[unfolded p]] by (simp add: store_0 length_draw)
  show ?thesis
  proof (cases "GetOSRand bufA w2")
    case (Inl e)
    then show ?thesis using num Inr p by (simp add: GetStrongRandBytes_def CSHA512_Write_def)
  next
    case r: (Inr q)
    obtain bufB w3 where q: "q = (bufB, w3)" by (cases q)
    have lenB: "length bufB = 64"
      using GetOSRand_Inr_shape(1)[OF r[unfolded q]] lenA by simp
    let ?d = "sha512 (take 32 bufA @ take 32 bufB)"
    have fin: "CSHA512_Finalize sha512 (take 32 bufA @ take 32 bufB) bufB = ?d"
      using sha lenB by (simp add: CSHA512_Finalize_def store_full)
    have cp: "memcpy out ?d num = Some (take (nat num) ?d @ drop (nat num) out)"
      using sha num by (simp add: memcpy_def store_0)
    have cl: "memory_cleanse ?d 64 = replicate 64 0"
      using sha by (simp add: memory_cleanse_def store_full)
    show ?thesis
      using num Inr p r q
      by (simp add: GetStrongRandBytes_def CSHA512_Write_def fin cp cl)
  qed
qed

lemma posix_perfmon: "\<not> WIN32 w \<Longrightarrow> RandAddSeedPerfmon w = snd (RandAddSeed w)"
  by (simp add: RandAddSeedPerfmon_def Let_def RandAddSeed_world log_event_def
      GetPerformanceCounter_world)

lemma quiet_seeded:
  "RandAddSeedPerfmon quiet_world =
     quiet_world\<lparr>gettimeofday_src := (\<lambda>k. (1700000000 + int (Suc k), 250000)),
       trace := [Call_gettimeofday,
                 Call_RAND_add (le_bytes 8 (1700000000250000 :: u64)) (3 / 2)]\<rparr>"
proof -
  have "\<not> WIN32 quiet_world" by (simp add: quiet_world_def)
  then show ?thesis
    by (simp add: posix_perfmon RandAddSeed_world GetPerformanceCounter_def gettimeofday_def
        log_event_def quiet_world_def)
qed

lemma quiet_strong_run:
  "\<exists>w'. GetStrongRandBytes toy_hash (replicate 8 0xEE) 5 quiet_world
         = Inr (([62, 60, 58, 56, 54, 0xEE, 0xEE, 0xEE], replicate 64 0), w')"
proof -
  let ?w1 = "RandAddSeedPerfmon quiet_world"
  let ?w2 = "RAND_bytes_calls (Suc 0) 32 ?w1"
  let ?A = "map of_nat [0..<32] :: u8 list"
  let ?B = "map (\<lambda>i. of_nat (2 * i)) [0..<32] :: u8 list"
  have sha: "\<forall>x. length (toy_hash x) = 64" by (auto simp: toy_hash_def)
  have a: "GetRandBytes (map (uninitialised quiet_world) [0..<64]) 32 ?w1
           = Inr (?A @ replicate 32 0xCC, ?w2)"
    apply (simp add: GetRandBytes_eq quiet_seeded)
    apply (simp add: quiet_world_def draw_def store_def map_replicate_const)
    done
  have w2: "\<not> WIN32 ?w2" "open_src ?w2 0 = 3" "read_src ?w2 0 = (32, (\<lambda>i. of_nat (2 * i)))"
    by (simp_all add: RAND_bytes_calls_def quiet_seeded) (simp_all add: quiet_world_def)
  have b: "\<exists>w'. GetOSRand (?A @ replicate 32 0xCC) ?w2 = Inr (?B @ replicate 32 0xCC, w')"
    apply (simp add: GetOSRand_def w2 sys_open_def)
    apply (subst GetOSRand_loop_unfold)
    apply (simp add: w2 log_event_def chunk_def store_def)
    done
  then obtain w' where b': "GetOSRand (?A @ replicate 32 0xCC) ?w2 = Inr (?B @ replicate 32 0xCC, w')"
    by blast
  have d: "take 5 (toy_hash (?A @ map (\<lambda>i. 2 * of_nat i) [0..<32])) = [62, 60, 58, 56, 54]"
    by (simp add: toy_hash_def upt_rec)
  have e: "replicate 3 (238 :: u8) = [238, 238, 238]"
    by (simp add: numeral_3_eq_3)
  have "GetStrongRandBytes toy_hash (replicate 8 0xEE) 5 quiet_world
         = Inr (([62, 60, 58, 56, 54, 0xEE, 0xEE, 0xEE], replicate 64 0), w')"
    by (subst GetStrongRandBytes_eq[OF sha]) (simp_all add: a b' d e)
  then show ?thesis by blast
qed

text \<open>
  Claim C3. For \<open>0 \<le> num \<le> 32\<close> (and an \<open>out\<close> of at least \<open>num\<close> bytes, a hash with
  a 64-byte digest), \<open>GetStrongRandBytes\<close> returns exactly when \<open>GetRandBytes\<close> and then
  \<open>GetOSRand\<close> return, and it leaves in \<open>out\<close> the first \<open>num\<close> bytes of the hash of the
  64 bytes \<open>A @ B\<close>: \<open>A\<close> the 32 bytes the generator produced, \<open>B\<close> the 32 bytes
  \<open>GetOSRand\<close> filled in. The draws are made in the world that \<open>RandAddSeedPerfmon\<close>
  leaves, whose trace starts with the reading of the counter and its feed to the pool
  with weight 3/2; the call of \<open>RAND_bytes\<close> comes after. A \<open>num\<close> above 32 fails the
  assertion before anything else happens.
\<close>

theorem GetStrongRandBytes_hashes_both_sources:
  assumes "\<forall>x. length (sha512 x) = 64"
    and "0 \<le> num" and "num \<le> 32" and "nat num \<le> length out"
  shows
  "(GetStrongRandBytes sha512 out num w = Inr ((out', buf'), w') \<longleftrightarrow>
      (\<exists>bufA bufB w2.
          GetRandBytes (map (uninitialised w) [0..<64]) 32 (RandAddSeedPerfmon w) = Inr (bufA, w2) \<and>
          take 32 bufA = draw 32 w 0 \<and>
          GetOSRand bufA w2 = Inr (bufB, w') \<and>
          length (take 32 bufA @ take 32 bufB) = 64 \<and>
          out' = take (nat num) (sha512 (take 32 bufA @ take 32 bufB)) @ drop (nat num) out \<and>
          buf' = replicate 64 0)) \<and>
   (\<exists>c evs. trace (RandAddSeedPerfmon w)
             = trace w @ [if WIN32 w then Call_QueryPerformanceCounter else Call_gettimeofday,
                          Call_RAND_add c (3 / 2)] @ evs \<and> length c = 8) \<and>
   (\<forall>bufA w2. GetRandBytes (map (uninitialised w) [0..<64]) 32 (RandAddSeedPerfmon w) = Inr (bufA, w2)
       \<longrightarrow> trace w2 = trace (RandAddSeedPerfmon w) @ [Call_RAND_bytes 32]) \<and>
   (32 < m \<longrightarrow> GetStrongRandBytes sha512 out m w = Inl (assert_failed, w))"
proof (intro conjI allI impI)
  have cont: "continues w (RandAddSeedPerfmon w)"
    by (rule continues_trans[OF RandAddSeed_continues RandAddSeedPerfmon_continues])
  have src: "draw 32 (RandAddSeedPerfmon w) 0 = draw 32 w 0"
    using cont by (simp add: draw_def continues_def)
  show "GetStrongRandBytes sha512 out num w = Inr ((out', buf'), w') \<longleftrightarrow>
      (\<exists>bufA bufB w2.
          GetRandBytes (map (uninitialised w) [0..<64]) 32 (RandAddSeedPerfmon w) = Inr (bufA, w2) \<and>
          take 32 bufA = draw 32 w 0 \<and>
          GetOSRand bufA w2 = Inr (bufB, w') \<and>
          length (take 32 bufA @ take 32 bufB) = 64 \<and>
          out' = take (nat num) (sha512 (take 32 bufA @ take 32 bufB)) @ drop (nat num) out \<and>
          buf' = replicate 64 0)" (is "?L \<longleftrightarrow> ?R")
  proof
    assume L: ?L
    from L obtain bufA w2 where
      a: "GetRandBytes (map (uninitialised w) [0..<64]) 32 (RandAddSeedPerfmon w) = Inr (bufA, w2)"
      unfolding GetStrongRandBytes_eq[OF assms] by (auto split: sum.splits)
    from L a obtain bufB w3 where b: "GetOSRand bufA w2 = Inr (bufB, w3)"
      unfolding GetStrongRandBytes_eq[OF assms] by (auto split: sum.splits)
    from L a b have res: "w3 = w'"
      "out' = take (nat num) (sha512 (take 32 bufA @ take 32 bufB)) @ drop (nat num) out"
      "buf' = replicate 64 0"
      unfolding GetStrongRandBytes_eq[OF assms] by simp_all
    have bufA: "bufA = store (map (uninitialised w) [0..<64]) 0 (draw 32 (RandAddSeedPerfmon w) 0)"
      by (rule GetRandBytes_Inr(1)[OF a])
    have tA: "take 32 bufA = draw 32 w 0"
      by (simp add: bufA store_0 length_draw src)
    have lenA: "length bufA = 64" by (simp add: bufA store_0 length_draw)
    have lenB: "length bufB = 64"
      using GetOSRand_Inr_shape(1)[OF b] lenA by simp
    show ?R
      apply (rule exI[of _ bufA], rule exI[of _ bufB], rule exI[of _ w2])
      using a b res tA lenA lenB by (simp add: length_draw)
  next
    assume ?R
    then show ?L unfolding GetStrongRandBytes_eq[OF assms] by auto
  qed
next
  from RandAddSeedPerfmon_continues[of w] obtain evs where
    "trace (RandAddSeedPerfmon w) = trace (snd (RandAddSeed w)) @ evs"
    by (auto simp: continues_def)
  then show "\<exists>c evs. trace (RandAddSeedPerfmon w)
             = trace w @ [if WIN32 w then Call_QueryPerformanceCounter else Call_gettimeofday,
                          Call_RAND_add c (3 / 2)] @ evs \<and> length c = 8"
    by (intro exI[of _ "le_bytes 8 (fst (GetPerformanceCounter w))"] exI[of _ evs])
       (simp add: RandAddSeed_trace length_le_bytes)
next
  fix bufA w2
  assume "GetRandBytes (map (uninitialised w) [0..<64]) 32 (RandAddSeedPerfmon w) = Inr (bufA, w2)"
  from GetRandBytes_Inr(2)[OF this]
  show "trace w2 = trace (RandAddSeedPerfmon w) @ [Call_RAND_bytes 32]"
    by (simp add: RAND_bytes_calls_def)
next
  assume "32 < m"
  then show "GetStrongRandBytes sha512 out m w = Inl (assert_failed, w)"
    by (simp add: GetStrongRandBytes_def)
qed


theorem GetStrongRandBytes_hashes_both_sources_witness:
  "\<exists>w' bufA bufB w2.
     GetStrongRandBytes toy_hash (replicate 8 0xEE) 5 quiet_world
       = Inr (([62, 60, 58, 56, 54, 0xEE, 0xEE, 0xEE], replicate 64 0), w') \<and>
     GetRandBytes (map (uninitialised quiet_world) [0..<64]) 32 (RandAddSeedPerfmon quiet_world)
       = Inr (bufA, w2) \<and>
     take 32 bufA = draw 32 quiet_world 0 \<and>
     GetOSRand bufA w2 = Inr (bufB, w') \<and>
     [62, 60, 58, 56, 54, 0xEE, 0xEE, 0xEE]
       = take (nat 5) (toy_hash (take 32 bufA @ take 32 bufB)) @ drop (nat 5) (replicate 8 0xEE) \<and>
     GetStrongRandBytes toy_hash (replicate 8 0xEE) 33 quiet_world = Inl (assert_failed, quiet_world)"
proof -
  have sha: "\<forall>x. length (toy_hash x) = 64" by (auto simp: toy_hash_def)
  have n: "(0 :: int) \<le> 5" "(5 :: int) \<le> 32" "nat 5 \<le> length (replicate 8 (0xEE :: u8))"
    by simp_all
  note T = GetStrongRandBytes_hashes_both_sources[OF sha n, of quiet_world]
  from quiet_strong_run obtain w' where
    r: "GetStrongRandBytes toy_hash (replicate 8 0xEE) 5 quiet_world
        = Inr (([62, 60, 58, 56, 54, 0xEE, 0xEE, 0xEE], replicate 64 0), w')"
    by blast
  from T[THEN conjunct1, THEN iffD1, OF r] obtain bufA bufB w2 where
    d: "GetRandBytes (map (uninitialised quiet_world) [0..<64]) 32 (RandAddSeedPerfmon quiet_world)
          = Inr (bufA, w2)"
       "take 32 bufA = draw 32 quiet_world 0"
       "GetOSRand bufA w2 = Inr (bufB, w')"
       "[62, 60, 58, 56, 54, 0xEE, 0xEE, 0xEE]
          = take (nat 5) (toy_hash (take 32 bufA @ take 32 bufB)) @ drop (nat 5) (replicate 8 0xEE)"
    by blast
  have a: "GetStrongRandBytes toy_hash (replicate 8 0xEE) 33 quiet_world
           = Inl (assert_failed, quiet_world)"
    using T[THEN conjunct2, THEN conjunct2, THEN conjunct2, of 33] by simp
  show ?thesis
    apply (rule exI[of _ w'], rule exI[of _ bufA], rule exI[of _ bufB], rule exI[of _ w2])
    using r d a by blast
qed

text \<open>
  Claim C9. When \<open>RandAddSeed\<close> returns, its local \<open>nCounter\<close> holds eight zero bytes,
  and the pool has been fed the bytes of the counter before that (the feed is in the
  trace, with the counter's bytes). When \<open>GetStrongRandBytes\<close> returns, its local \<open>buf\<close>
  holds 64 zero bytes, while \<open>out\<close> has received its bytes of the digest.
\<close>

theorem buffers_scrubbed:
  "(fst (RandAddSeed w) = replicate 8 0 \<and>
    trace (snd (RandAddSeed w))
      = trace w @ [if WIN32 w then Call_QueryPerformanceCounter else Call_gettimeofday,
                   Call_RAND_add (le_bytes 8 (fst (GetPerformanceCounter w))) (3 / 2)]) \<and>
   ((\<forall>x. length (sha512 x) = 64) \<and> 0 \<le> num \<and> num \<le> 32 \<and> nat num \<le> length out \<and>
    GetStrongRandBytes sha512 out num w = Inr ((out', buf'), w') \<longrightarrow>
      buf' = replicate 64 0 \<and>
      (\<exists>h. length h = 64 \<and> out' = take (nat num) (sha512 h) @ drop (nat num) out))"
proof (intro conjI impI)
  show "fst (RandAddSeed w) = replicate 8 0"
    by (simp add: RandAddSeed_def memory_cleanse_def store_full length_le_bytes Let_def
        split: prod.splits)
  show "trace (snd (RandAddSeed w))
      = trace w @ [if WIN32 w then Call_QueryPerformanceCounter else Call_gettimeofday,
                   Call_RAND_add (le_bytes 8 (fst (GetPerformanceCounter w))) (3 / 2)]"
    by (rule RandAddSeed_trace)
next
  assume a: "(\<forall>x. length (sha512 x) = 64) \<and> 0 \<le> num \<and> num \<le> 32 \<and> nat num \<le> length out \<and>
    GetStrongRandBytes sha512 out num w = Inr ((out', buf'), w')"
  then have sha: "\<forall>x. length (sha512 x) = 64" and n: "0 \<le> num" "num \<le> 32" "nat num \<le> length out"
    and r: "GetStrongRandBytes sha512 out num w = Inr ((out', buf'), w')"
    by simp_all
  from r obtain bufA w2 where
    ga: "GetRandBytes (map (uninitialised w) [0..<64]) 32 (RandAddSeedPerfmon w) = Inr (bufA, w2)"
    unfolding GetStrongRandBytes_eq[OF sha n] by (auto split: sum.splits)
  from r ga obtain bufB w3 where gb: "GetOSRand bufA w2 = Inr (bufB, w3)"
    unfolding GetStrongRandBytes_eq[OF sha n] by (auto split: sum.splits)
  from r ga gb have res:
    "out' = take (nat num) (sha512 (take 32 bufA @ take 32 bufB)) @ drop (nat num) out"
    "buf' = replicate 64 0"
    unfolding GetStrongRandBytes_eq[OF sha n] by simp_all
  have lenA: "length bufA = 64"
    using GetRandBytes_Inr(1)[OF ga] by (simp add: store_0 length_draw)
  have lenB: "length bufB = 64"
    using GetOSRand_Inr_shape(1)[OF gb] lenA by simp
  show "buf' = replicate 64 0" by (rule res(2))
  show "\<exists>h. length h = 64 \<and> out' = take (nat num) (sha512 h) @ drop (nat num) out"
    using res(1) lenA lenB by (intro exI[of _ "take 32 bufA @ take 32 bufB"]) simp
qed

theorem buffers_scrubbed_witness:
  "fst (RandAddSeed quiet_world) = replicate 8 0 \<and>
   (\<exists>out' buf' w'.
      GetStrongRandBytes toy_hash (replicate 8 0xEE) 5 quiet_world = Inr ((out', buf'), w') \<and>
      buf' = replicate 64 0 \<and> out' = [62, 60, 58, 56, 54, 0xEE, 0xEE, 0xEE])"
proof -
  have sha: "\<forall>x. length (toy_hash x) = 64" by (auto simp: toy_hash_def)
  from quiet_strong_run obtain out' buf' w' where
    r: "GetStrongRandBytes toy_hash (replicate 8 0xEE) 5 quiet_world = Inr ((out', buf'), w')"
    and o: "out' = [62, 60, 58, 56, 54, 0xEE, 0xEE, 0xEE]"
    by blast
  have "(\<forall>x. length (toy_hash x) = 64) \<and> (0 :: int) \<le> 5 \<and> (5 :: int) \<le> 32 \<and>
        nat 5 \<le> length (replicate 8 (0xEE :: u8)) \<and>
        GetStrongRandBytes toy_hash (replicate 8 0xEE) 5 quiet_world = Inr ((out', buf'), w')"
    using sha r by simp
  from buffers_scrubbed[THEN conjunct2, rule_format, OF this]
  have z: "buf' = replicate 64 0" by simp
  have c: "fst (RandAddSeed quiet_world) = replicate 8 0"
    by (rule buffers_scrubbed[THEN conjunct1, THEN conjunct1])
  show ?thesis using c r z o by blast
qed

section \<open>The buffer of \<open>RandAddSeedPerfmon\<close>\<close>

text \<open>
  Claim C5, evaluated where it fails. The loop starts with a buffer of 250000 bytes. When
  the first query answers \<open>ERROR_MORE_DATA\<close>, the next query is made with a buffer of
  10000000 bytes, not of \<open>250000 * 3 / 2 = 375000\<close>: \<open>std::max\<close> of the grown size and
  the cap is the cap.
\<close>

theorem perfmon_buffer_jumps_to_cap:
  "(250000 * 3) div 2 = (375000 :: nat) \<and>
   trace (snd (RandAddSeedPerfmon_loop (replicate 250000 0) more_data_world))
     = [Call_RegQueryValueExA 250000, Call_RegQueryValueExA 10000000] \<and>
   length (snd (snd (fst (RandAddSeedPerfmon_loop (replicate 250000 0) more_data_world))))
     = 10000000 \<and>
   fst (fst (RandAddSeedPerfmon_loop (replicate 250000 0) more_data_world)) = ERROR_SUCCESS"
proof -
  let ?w1 = "after_query 250000 more_data_world"
  have s0: "RegQueryValueExA_src more_data_world 0 = (234, 300000, (\<lambda>i. 0))"
    by (simp add: more_data_world_def)
  have s1: "RegQueryValueExA_src ?w1 0 = (0, 4, (\<lambda>i. of_nat i))"
    by (simp add: more_data_world_def after_query_def log_event_def)
  have t1: "trace more_data_world = []"
    by (simp add: more_data_world_def quiet_world_def)
  have t2: "trace (after_query n v) = trace v @ [Call_RegQueryValueExA n]" for n v
    by (simp add: after_query_def log_event_def)
  have grow: "resize (replicate 250000 (0 :: u8)) 10000000
              = replicate 250000 0 @ replicate 9750000 0"
    by (simp add: resize_def)
  have step: "RandAddSeedPerfmon_loop (replicate 250000 0) more_data_world
              = RandAddSeedPerfmon_loop (replicate 250000 0 @ replicate 9750000 0) ?w1"
    by (subst RandAddSeedPerfmon_loop_unfold)
       (simp add: s0 ERROR_MORE_DATA_def nMaxSize_def grow)
  have stop: "RandAddSeedPerfmon_loop (replicate 250000 0 @ replicate 9750000 0) ?w1
              = (case fst (RegQueryValueExA (replicate 250000 0 @ replicate 9750000 0) 10000000 ?w1) of
                   (ret, vData', nSize') \<Rightarrow> ((ret, nSize', vData'), after_query 10000000 ?w1))"
    by (subst RandAddSeedPerfmon_loop_unfold) (simp add: s1 ERROR_MORE_DATA_def nMaxSize_def)
  show ?thesis
    unfolding step stop
    by (simp add: RegQueryValueExA_eq s1 ERROR_SUCCESS_def t1 t2 store_def)
qed

end
